theory Spec2Isabelle
  imports Main
begin

section \<open>Python strings\<close>

text \<open>
  A Python \<open>str\<close> is a sequence of Unicode code points. A code point is a natural
  number here, so every character the interpreter can hold has its own value and
  \<open>length\<close> counts what \<open>len\<close> counts. Literals are written through \<open>u\<close>.
\<close>

type_synonym ustr = "nat list"

definition u :: "string \<Rightarrow> ustr" where
  "u s = map of_char s"

definition PIPE :: nat where "PIPE = 124"
definition LF :: nat where "LF = 10"
definition CR :: nat where "CR = 13"
definition SPACE :: nat where "SPACE = 32"
definition DASH :: nat where "DASH = 45"
definition COLON :: nat where "COLON = 58"

text \<open>
  \<open>str.isspace\<close> on one code point, the table behind \<open>str.strip()\<close> and the regular
  expression class \<open>\s\<close> on \<open>str\<close> patterns (CPython's \<open>Py_UNICODE_ISSPACE\<close>).
\<close>

definition isspace :: "nat \<Rightarrow> bool" where
  "isspace c \<longleftrightarrow>
     (9 \<le> c \<and> c \<le> 13) \<or> (28 \<le> c \<and> c \<le> 32) \<or> c = 133 \<or> c = 160 \<or> c = 5760 \<or>
     (8192 \<le> c \<and> c \<le> 8202) \<or> c = 8232 \<or> c = 8233 \<or> c = 8239 \<or> c = 8287 \<or> c = 12288"

text \<open>The line boundaries of \<open>str.splitlines\<close> (CPython's \<open>Py_UNICODE_ISLINEBREAK\<close>).\<close>

definition islinebreak :: "nat \<Rightarrow> bool" where
  "islinebreak c \<longleftrightarrow>
     (10 \<le> c \<and> c \<le> 13) \<or> (28 \<le> c \<and> c \<le> 30) \<or> c = 133 \<or> c = 8232 \<or> c = 8233"

definition lstrip :: "ustr \<Rightarrow> ustr" where
  "lstrip s = dropWhile isspace s"

definition rstrip :: "ustr \<Rightarrow> ustr" where
  "rstrip s = rev (dropWhile isspace (rev s))"

definition strip :: "ustr \<Rightarrow> ustr" where
  "strip s = rstrip (lstrip s)"

text \<open>\<open>'|' in line\<close>\<close>

definition has_pipe :: "ustr \<Rightarrow> bool" where
  "has_pipe s \<longleftrightarrow> PIPE \<in> set s"

text \<open>\<open>s.startswith('|')\<close> and \<open>s.endswith('|')\<close>\<close>

definition startswith_pipe :: "ustr \<Rightarrow> bool" where
  "startswith_pipe s = (case s of [] \<Rightarrow> False | c # _ \<Rightarrow> c = PIPE)"

definition endswith_pipe :: "ustr \<Rightarrow> bool" where
  "endswith_pipe s = (case rev s of [] \<Rightarrow> False | c # _ \<Rightarrow> c = PIPE)"

text \<open>
  \<open>s.split(sep)\<close> for a one-character separator: the pieces between the occurrences
  of \<open>sep\<close>; there is always at least one piece.
\<close>

fun split_on :: "nat \<Rightarrow> ustr \<Rightarrow> ustr list" where
  "split_on sep [] = [[]]"
| "split_on sep (c # cs) =
     (if c = sep then [] # split_on sep cs
      else (case split_on sep cs of
              [] \<Rightarrow> [[c]]
            | p # ps \<Rightarrow> (c # p) # ps))"

text \<open>\<open>sep.join(parts)\<close>\<close>

fun join :: "ustr \<Rightarrow> ustr list \<Rightarrow> ustr" where
  "join sep [] = []"
| "join sep [x] = x"
| "join sep (x # y # ys) = x @ sep @ join sep (y # ys)"

text \<open>
  \<open>str.splitlines()\<close>, after CPython's loop: scan to the next line boundary, emit the
  text before it, step over the boundary (\<open>\r\n\<close> counts as one), repeat until the
  string is used up. A final line is emitted only when it is not empty.
\<close>

fun skip_break :: "ustr \<Rightarrow> ustr" where
  "skip_break [] = []"
| "skip_break [c] = []"
| "skip_break (c # d # r) = (if c = CR \<and> d = LF then r else d # r)"

lemma length_skip_break: "length (skip_break s) \<le> length s"
  by (induction s rule: skip_break.induct) auto

lemma length_skip_break_less: "s \<noteq> [] \<Longrightarrow> length (skip_break s) < length s"
  by (induction s rule: skip_break.induct) auto

function splitlines :: "ustr \<Rightarrow> ustr list" where
  "splitlines s =
     (if s = [] then []
      else takeWhile (\<lambda>c. \<not> islinebreak c) s
             # splitlines (skip_break (dropWhile (\<lambda>c. \<not> islinebreak c) s)))"
  by pat_completeness auto
termination
proof (relation "measure length")
  show "wf (measure length)" by simp
next
  fix s :: ustr
  assume ne: "s \<noteq> []"
  let ?d = "dropWhile (\<lambda>c. \<not> islinebreak c) s"
  show "(skip_break ?d, s) \<in> measure length"
  proof (cases "?d = []")
    case True
    have "skip_break ?d = skip_break []" by (simp only: True)
    with ne show ?thesis by simp
  next
    case False
    then have "length (skip_break ?d) < length ?d" by (rule length_skip_break_less)
    also have "length ?d \<le> length s" by (rule length_dropWhile_le)
    finally show ?thesis by simp
  qed
qed

declare splitlines.simps [simp del]

section \<open>Errors\<close>

text \<open>The exceptions the code could raise: a list index out of range, \<open>max\<close> of nothing.\<close>

datatype py_error = IndexError | ValueError

definition get :: "'a list \<Rightarrow> nat \<Rightarrow> py_error + 'a" where
  "get xs i = (if i < length xs then Inr (xs ! i) else Inl IndexError)"

text \<open>\<open>max(len(r) for r in rows)\<close>: \<open>ValueError\<close> on an empty sequence.\<close>

definition max_len :: "'a list list \<Rightarrow> py_error + nat" where
  "max_len rows = (case rows of [] \<Rightarrow> Inl ValueError
                   | r # rs \<Rightarrow> Inr (fold (\<lambda>x m. max m (length x)) rs (length r)))"

text \<open>
  The regular expression \<open>:?-{3,}:?\<close> matched against the whole string
  (\<open>re.fullmatch\<close>): an optional colon, three or more hyphens, an optional colon.
\<close>

definition sep_fullmatch :: "ustr \<Rightarrow> bool" where
  "sep_fullmatch s =
     (let s1 = (case s of [] \<Rightarrow> [] | c # r \<Rightarrow> if c = COLON then r else s);
          r = dropWhile (\<lambda>c. c = DASH) s1
      in 3 \<le> length (takeWhile (\<lambda>c. c = DASH) s1) \<and> (r = [] \<or> r = [COLON]))"

text \<open>
  The words of \<open>^:?-{3,}:?$\<close>, as the specification writes the pattern: an optional
  colon, \<open>n \<ge> 3\<close> hyphens, an optional colon, and nothing else.
\<close>

definition sep_words :: "ustr \<Rightarrow> bool" where
  "sep_words s \<longleftrightarrow>
     (\<exists>n a b. 3 \<le> n \<and> (a = [] \<or> a = [COLON]) \<and> (b = [] \<or> b = [COLON])
        \<and> s = a @ replicate n DASH @ b)"

text \<open>Python slices \<open>xs[:k]\<close> and \<open>xs[k:]\<close>; a negative \<open>k\<close> counts from the end.\<close>

definition slice_to :: "'a list \<Rightarrow> int \<Rightarrow> 'a list" where
  "slice_to xs k = (if 0 \<le> k then take (nat k) xs else take (length xs - nat (- k)) xs)"

definition slice_from :: "'a list \<Rightarrow> int \<Rightarrow> 'a list" where
  "slice_from xs k = (if 0 \<le> k then drop (nat k) xs else drop (length xs - nat (- k)) xs)"

text \<open>\<open>range(1, n, 2)\<close>\<close>

definition odd_range :: "nat \<Rightarrow> nat list" where
  "odd_range n = filter odd [1..<n]"

definition SEP3 :: ustr where
  "SEP3 = [DASH, DASH, DASH]"

definition BAR :: ustr where
  "BAR = [SPACE, PIPE, SPACE]"

section \<open>Grok3\_round\_5\<close>





definition Grok3_round_5_is_separator_cell :: "ustr \<Rightarrow> bool" where
  "Grok3_round_5_is_separator_cell cell = sep_fullmatch (strip cell)"

definition Grok3_round_5_is_separator_row :: "ustr list \<Rightarrow> bool" where
  "Grok3_round_5_is_separator_row cells =
     list_all Grok3_round_5_is_separator_cell (filter (\<lambda>c. strip c \<noteq> []) cells)"












section \<open>O1\_pro\_round\_5\<close>

definition O1_pro_round_5_merge_flush :: "ustr list \<Rightarrow> ustr option \<Rightarrow> ustr list" where
  "O1_pro_round_5_merge_flush merged current =
     (case current of None \<Rightarrow> merged | Some c \<Rightarrow> merged @ [c])"

fun O1_pro_round_5_merge_loop :: "ustr list \<Rightarrow> ustr option \<Rightarrow> ustr list \<Rightarrow> ustr list" where
  "O1_pro_round_5_merge_loop merged current [] = O1_pro_round_5_merge_flush merged current"
| "O1_pro_round_5_merge_loop merged current (ln # rest) =
     (if has_pipe ln then
        O1_pro_round_5_merge_loop (O1_pro_round_5_merge_flush merged current) (Some ln) rest
      else if strip ln \<noteq> [] then
        (case current of
           Some c \<Rightarrow> O1_pro_round_5_merge_loop merged (Some (c @ [SPACE] @ strip ln)) rest
         | None \<Rightarrow> O1_pro_round_5_merge_loop merged (Some ln) rest)
      else
        O1_pro_round_5_merge_loop (O1_pro_round_5_merge_flush merged current @ [ln]) None rest)"

definition O1_pro_round_5_merge_continuation_lines :: "ustr list \<Rightarrow> ustr list" where
  "O1_pro_round_5_merge_continuation_lines lines = O1_pro_round_5_merge_loop [] None lines"

definition O1_pro_round_5_parse_row :: "ustr \<Rightarrow> ustr list" where
  "O1_pro_round_5_parse_row line =
     (let s = strip line;
          has_lead = startswith_pipe s;
          has_tail = endswith_pipe s;
          s = (if has_lead then tl s else s);
          s = (if has_tail then butlast s else s)
      in map strip (split_on PIPE s))"

definition O1_pro_round_5_is_separator_cell :: "ustr \<Rightarrow> bool" where
  "O1_pro_round_5_is_separator_cell cell = sep_fullmatch (strip cell)"

definition O1_pro_round_5_is_separator_row :: "ustr list \<Rightarrow> bool" where
  "O1_pro_round_5_is_separator_row cells =
     list_all O1_pro_round_5_is_separator_cell (filter (\<lambda>c. strip c \<noteq> []) cells)"

definition O1_pro_round_5_is_valid_table :: "ustr list \<Rightarrow> bool" where
  "O1_pro_round_5_is_valid_table lines =
     (if length lines < 2 then False
      else (case map O1_pro_round_5_parse_row (filter has_pipe lines) of
              r0 # r1 # rs \<Rightarrow>
                if \<not> O1_pro_round_5_is_separator_row r1 then False
                else list_all (\<lambda>r. length r = length r0) (r0 # r1 # rs)
            | _ \<Rightarrow> False))"

text \<open>
  The counting loop of \<open>_detect_repeated_separators\<close> over \<open>range(1, len(rows), 2)\<close>;
  the state is \<open>(odd_sep_count, total_odd)\<close>. Every index of the range is below
  \<open>len(rows)\<close>.
\<close>

fun O1_pro_round_5_detect_loop :: "ustr list list \<Rightarrow> nat list \<Rightarrow> nat \<times> nat \<Rightarrow> nat \<times> nat" where
  "O1_pro_round_5_detect_loop rows [] st = st"
| "O1_pro_round_5_detect_loop rows (i # is) (odd_sep_count, total_odd) =
     O1_pro_round_5_detect_loop rows is
       (if O1_pro_round_5_is_separator_row (rows ! i) then (odd_sep_count + 1, total_odd + 1)
        else (odd_sep_count, total_odd + 1))"

text \<open>
  \<open>odd_sep_count >= total_odd / 2.0\<close> compares an integer with half an integer, which
  is \<open>total_odd \<le> 2 * odd_sep_count\<close>.
\<close>

definition O1_pro_round_5_detect_repeated_separators :: "ustr list list \<Rightarrow> bool" where
  "O1_pro_round_5_detect_repeated_separators rows =
     (if length rows < 3 then False
      else (case O1_pro_round_5_detect_loop rows (odd_range (length rows)) (0, 0) of
              (odd_sep_count, total_odd) \<Rightarrow> total_odd \<le> 2 * odd_sep_count))"

definition O1_pro_round_5_normalize_row :: "ustr list \<Rightarrow> int \<Rightarrow> ustr list" where
  "O1_pro_round_5_normalize_row row target_cols =
     (if int (length row) < target_cols then
        row @ replicate (nat (target_cols - int (length row))) []
      else if int (length row) > target_cols then
        slice_to row (target_cols - 1) @ [join [SPACE] (slice_from row (target_cols - 1))]
      else row)"

definition O1_pro_round_5_rebuild_row :: "ustr list \<Rightarrow> bool \<times> bool \<Rightarrow> ustr" where
  "O1_pro_round_5_rebuild_row cells style =
     (let row_str = join BAR cells;
          row_str = (if fst style then [PIPE, SPACE] @ row_str else row_str);
          row_str = (if snd style then row_str @ [SPACE, PIPE] else row_str)
      in row_str)"

function O1_pro_round_5_repeated_loop ::
  "ustr list list \<Rightarrow> bool \<times> bool \<Rightarrow> nat \<Rightarrow> nat \<Rightarrow> ustr list \<Rightarrow> ustr list" where
  "O1_pro_round_5_repeated_loop parsed_rows style max_cols i fixed =
     (if i < length parsed_rows then
        (if O1_pro_round_5_is_separator_row (parsed_rows ! i) then
           O1_pro_round_5_repeated_loop parsed_rows style max_cols (i + 1) fixed
         else
           O1_pro_round_5_repeated_loop parsed_rows style max_cols (i + 1)
             (fixed @ [O1_pro_round_5_rebuild_row (parsed_rows ! i) style,
                       O1_pro_round_5_rebuild_row (replicate max_cols SEP3) style]))
      else fixed)"
  by pat_completeness auto
termination
  by (relation "measure (\<lambda>(parsed_rows, style, max_cols, i, fixed). length parsed_rows - i)") auto

declare O1_pro_round_5_repeated_loop.simps [simp del]

definition O1_pro_round_5_fix_invalid_table :: "ustr list \<Rightarrow> py_error + ustr list" where
  "O1_pro_round_5_fix_invalid_table lines =
     (let parsed_rows0 = map O1_pro_round_5_parse_row (filter has_pipe lines)
      in if parsed_rows0 = [] then Inr lines
         else
           (case get lines 0 of
              Inl e \<Rightarrow> Inl e
            | Inr first_line \<Rightarrow>
                (let style = (startswith_pipe (strip first_line), endswith_pipe (strip first_line))
                 in (case max_len parsed_rows0 of
                       Inl e \<Rightarrow> Inl e
                     | Inr max_cols \<Rightarrow>
                         (let repeated_sep = O1_pro_round_5_detect_repeated_separators parsed_rows0;
                              parsed_rows =
                                map (\<lambda>r. O1_pro_round_5_normalize_row r (int max_cols)) parsed_rows0
                          in (case get parsed_rows 0 of
                                Inl e \<Rightarrow> Inl e
                              | Inr header \<Rightarrow>
                                  (let fixed = [O1_pro_round_5_rebuild_row header style,
                                                O1_pro_round_5_rebuild_row (replicate max_cols SEP3) style]
                                   in if repeated_sep then
                                        Inr (O1_pro_round_5_repeated_loop parsed_rows style max_cols 1 fixed)
                                      else
                                        Inr (fixed @
                                             map (\<lambda>r. O1_pro_round_5_rebuild_row r style)
                                               (filter (\<lambda>r. \<not> O1_pro_round_5_is_separator_row r)
                                                  (slice_from parsed_rows 1))))))))))"

definition O1_pro_round_5_process_table_block :: "ustr list \<Rightarrow> py_error + ustr list" where
  "O1_pro_round_5_process_table_block block_lines =
     (let merged = O1_pro_round_5_merge_continuation_lines block_lines
      in if O1_pro_round_5_is_valid_table merged then Inr block_lines
         else O1_pro_round_5_fix_invalid_table merged)"

fun O1_pro_round_5_scan ::
  "ustr list \<Rightarrow> ustr list \<Rightarrow> bool \<Rightarrow> ustr list \<Rightarrow> py_error + ustr list" where
  "O1_pro_round_5_scan out table_block in_table [] =
     (if table_block \<noteq> [] then
        (case O1_pro_round_5_process_table_block table_block of
           Inl e \<Rightarrow> Inl e
         | Inr p \<Rightarrow> Inr (out @ p))
      else Inr out)"
| "O1_pro_round_5_scan out table_block in_table (line # rest) =
     (if has_pipe line then
        O1_pro_round_5_scan out (table_block @ [line]) True rest
      else if in_table then
        (case O1_pro_round_5_process_table_block table_block of
           Inl e \<Rightarrow> Inl e
         | Inr p \<Rightarrow> O1_pro_round_5_scan ((out @ p) @ [line]) [] False rest)
      else O1_pro_round_5_scan (out @ [line]) table_block in_table rest)"

definition O1_pro_round_5_fix_invalid_markdown_tables :: "ustr \<Rightarrow> py_error + ustr" where
  "O1_pro_round_5_fix_invalid_markdown_tables markdown_text =
     (case O1_pro_round_5_scan [] [] False (splitlines markdown_text) of
        Inl e \<Rightarrow> Inl e
      | Inr out \<Rightarrow> Inr (join [LF] out))"

section \<open>Claude37\_round\_5\<close>

definition Claude37_round_5_merge_flush :: "ustr list \<Rightarrow> ustr option \<Rightarrow> ustr list" where
  "Claude37_round_5_merge_flush merged current =
     (case current of None \<Rightarrow> merged | Some c \<Rightarrow> merged @ [c])"

fun Claude37_round_5_merge_loop :: "ustr list \<Rightarrow> ustr option \<Rightarrow> ustr list \<Rightarrow> ustr list" where
  "Claude37_round_5_merge_loop merged current [] = Claude37_round_5_merge_flush merged current"
| "Claude37_round_5_merge_loop merged current (line # rest) =
     (if has_pipe line then
        Claude37_round_5_merge_loop (Claude37_round_5_merge_flush merged current)
          (Some (rstrip line)) rest
      else if strip line \<noteq> [] then
        (case current of
           Some c \<Rightarrow> Claude37_round_5_merge_loop merged (Some (c @ [SPACE] @ strip line)) rest
         | None \<Rightarrow> Claude37_round_5_merge_loop merged (Some (rstrip line)) rest)
      else
        Claude37_round_5_merge_loop
          (if strip line \<noteq> [] then Claude37_round_5_merge_flush merged current @ [line]
           else Claude37_round_5_merge_flush merged current)
          None rest)"

definition Claude37_round_5_merge_continuation_lines :: "ustr list \<Rightarrow> ustr list" where
  "Claude37_round_5_merge_continuation_lines lines = Claude37_round_5_merge_loop [] None lines"

definition Claude37_round_5_parse_row :: "ustr \<Rightarrow> ustr list" where
  "Claude37_round_5_parse_row line =
     (if line = [] then []
      else if \<not> has_pipe line then []
      else
        (let s = strip line;
             has_lead = startswith_pipe s;
             has_tail = endswith_pipe s;
             s = (if has_lead then tl s else s);
             s = (if has_tail then butlast s else s)
         in map strip (split_on PIPE s)))"

definition Claude37_round_5_is_separator_cell :: "ustr \<Rightarrow> bool" where
  "Claude37_round_5_is_separator_cell cell = sep_fullmatch (strip cell)"

definition Claude37_round_5_is_separator_row :: "ustr list \<Rightarrow> bool" where
  "Claude37_round_5_is_separator_row cells =
     (if cells = [] then False
      else list_all Claude37_round_5_is_separator_cell (filter (\<lambda>c. strip c \<noteq> []) cells))"

definition Claude37_round_5_is_valid_table :: "ustr list \<Rightarrow> bool" where
  "Claude37_round_5_is_valid_table lines =
     (if length lines < 2 then False
      else (case map Claude37_round_5_parse_row (filter has_pipe lines) of
              r0 # r1 # rs \<Rightarrow>
                if \<not> Claude37_round_5_is_separator_row r1 then False
                else list_all (\<lambda>row. length row = length r0) (r0 # r1 # rs)
            | _ \<Rightarrow> False))"

definition Claude37_round_5_detect_table_style :: "ustr \<Rightarrow> bool \<times> bool" where
  "Claude37_round_5_detect_table_style line =
     (let s = strip line in (startswith_pipe s, endswith_pipe s))"

text \<open>
  \<open>odd_sep_count >= total_odds / 2\<close> compares an integer with half an integer, which
  is \<open>total_odds \<le> 2 * odd_sep_count\<close>.
\<close>

definition Claude37_round_5_detect_separator_pattern :: "ustr list list \<Rightarrow> bool" where
  "Claude37_round_5_detect_separator_pattern parsed_rows =
     (if length parsed_rows < 3 then False
      else
        (let sep_indices =
               map fst (filter (\<lambda>(i, row). Claude37_round_5_is_separator_row row)
                               (enumerate 0 parsed_rows))
         in if length sep_indices \<le> 1 then False
            else
              (let odd_sep_count = length (filter odd sep_indices);
                   total_odds = (length parsed_rows - 1) div 2
               in total_odds \<le> 2 * odd_sep_count)))"

definition Claude37_round_5_normalize_row :: "ustr list \<Rightarrow> int \<Rightarrow> ustr list" where
  "Claude37_round_5_normalize_row row target_cols =
     (if int (length row) < target_cols then
        row @ replicate (nat (target_cols - int (length row))) []
      else if int (length row) > target_cols then
        (if target_cols > 1 then
           slice_to row (target_cols - 1) @ [join [SPACE] (slice_from row (target_cols - 1))]
         else [join [SPACE] row])
      else row)"

definition Claude37_round_5_rebuild_row :: "ustr list \<Rightarrow> bool \<times> bool \<Rightarrow> ustr" where
  "Claude37_round_5_rebuild_row cells style =
     (if cells = [] then []
      else
        (let row = join BAR cells;
             row = (if fst style then [PIPE, SPACE] @ row else row);
             row = (if snd style then row @ [SPACE, PIPE] else row)
         in row))"

function Claude37_round_5_repeated_loop ::
  "ustr list list \<Rightarrow> bool list \<Rightarrow> bool \<times> bool \<Rightarrow> nat \<Rightarrow> nat \<Rightarrow> ustr list
     \<Rightarrow> py_error + ustr list" where
  "Claude37_round_5_repeated_loop parsed_rows is_sep style max_cols i fixed_lines =
     (if i < length parsed_rows then
        (case get is_sep i of
           Inl e \<Rightarrow> Inl e
         | Inr f \<Rightarrow>
             if f then
               Claude37_round_5_repeated_loop parsed_rows is_sep style max_cols (i + 1) fixed_lines
             else
               Claude37_round_5_repeated_loop parsed_rows is_sep style max_cols (i + 1)
                 (fixed_lines @
                    [Claude37_round_5_rebuild_row
                       (Claude37_round_5_normalize_row (parsed_rows ! i) (int max_cols)) style,
                     Claude37_round_5_rebuild_row (replicate max_cols SEP3) style]))
      else Inr fixed_lines)"
  by pat_completeness auto
termination
  by (relation "measure (\<lambda>(parsed_rows, is_sep, style, max_cols, i, fixed_lines).
                           length parsed_rows - i)") auto

declare Claude37_round_5_repeated_loop.simps [simp del]

fun Claude37_round_5_standard_loop ::
  "ustr list list \<Rightarrow> bool list \<Rightarrow> bool \<times> bool \<Rightarrow> nat \<Rightarrow> nat list \<Rightarrow> ustr list
     \<Rightarrow> py_error + ustr list" where
  "Claude37_round_5_standard_loop parsed_rows is_sep style max_cols [] fixed_lines = Inr fixed_lines"
| "Claude37_round_5_standard_loop parsed_rows is_sep style max_cols (i # is) fixed_lines =
     (case get is_sep i of
        Inl e \<Rightarrow> Inl e
      | Inr f \<Rightarrow>
          if f then Claude37_round_5_standard_loop parsed_rows is_sep style max_cols is fixed_lines
          else
            (case get parsed_rows i of
               Inl e \<Rightarrow> Inl e
             | Inr r \<Rightarrow>
                 Claude37_round_5_standard_loop parsed_rows is_sep style max_cols is
                   (fixed_lines @
                      [Claude37_round_5_rebuild_row
                         (Claude37_round_5_normalize_row r (int max_cols)) style])))"

definition Claude37_round_5_fix_table_block :: "ustr list \<Rightarrow> py_error + ustr list" where
  "Claude37_round_5_fix_table_block merged_lines =
     (case get merged_lines 0 of
        Inl e \<Rightarrow> Inl e
      | Inr first_line \<Rightarrow>
          (let style = Claude37_round_5_detect_table_style first_line;
               parsed_rows = map Claude37_round_5_parse_row (filter has_pipe merged_lines);
               has_separators_after_rows = Claude37_round_5_detect_separator_pattern parsed_rows;
               is_sep = map Claude37_round_5_is_separator_row parsed_rows
           in (case (if parsed_rows \<noteq> [] then max_len parsed_rows else Inr 0) of
                 Inl e \<Rightarrow> Inl e
               | Inr max_cols \<Rightarrow>
                   (case get parsed_rows 0 of
                      Inl e \<Rightarrow> Inl e
                    | Inr r0 \<Rightarrow>
                        (let header = Claude37_round_5_normalize_row r0 (int max_cols);
                             separator = replicate max_cols SEP3;
                             fixed_lines = [Claude37_round_5_rebuild_row header style,
                                            Claude37_round_5_rebuild_row separator style]
                         in if has_separators_after_rows then
                              Claude37_round_5_repeated_loop parsed_rows is_sep style max_cols 1
                                fixed_lines
                            else
                              Claude37_round_5_standard_loop parsed_rows is_sep style max_cols
                                [1..<length parsed_rows] fixed_lines)))))"

definition Claude37_round_5_process_table_block :: "ustr list \<Rightarrow> py_error + ustr list" where
  "Claude37_round_5_process_table_block block_lines =
     (let merged_lines = Claude37_round_5_merge_continuation_lines block_lines
      in if length merged_lines < 2 then Inr block_lines
         else if \<not> list_ex has_pipe merged_lines then Inr block_lines
         else if Claude37_round_5_is_valid_table merged_lines then Inr block_lines
         else Claude37_round_5_fix_table_block merged_lines)"

fun Claude37_round_5_scan ::
  "ustr list \<Rightarrow> ustr list \<Rightarrow> bool \<Rightarrow> ustr list \<Rightarrow> py_error + ustr list" where
  "Claude37_round_5_scan output table_block in_table [] =
     (if table_block \<noteq> [] then
        (case Claude37_round_5_process_table_block table_block of
           Inl e \<Rightarrow> Inl e
         | Inr p \<Rightarrow> Inr (output @ p))
      else Inr output)"
| "Claude37_round_5_scan output table_block in_table (line # rest) =
     (if has_pipe line then
        Claude37_round_5_scan output (table_block @ [line]) True rest
      else if in_table \<and> strip line \<noteq> [] then
        Claude37_round_5_scan output (table_block @ [line]) in_table rest
      else if in_table then
        (case Claude37_round_5_process_table_block table_block of
           Inl e \<Rightarrow> Inl e
         | Inr p \<Rightarrow> Claude37_round_5_scan ((output @ p) @ [line]) [] False rest)
      else Claude37_round_5_scan (output @ [line]) table_block in_table rest)"

definition Claude37_round_5_fix_invalid_markdown_tables :: "ustr \<Rightarrow> py_error + ustr" where
  "Claude37_round_5_fix_invalid_markdown_tables markdown_text =
     (case Claude37_round_5_scan [] [] False (splitlines markdown_text) of
        Inl e \<Rightarrow> Inl e
      | Inr output \<Rightarrow> Inr (join [LF] output))"


section \<open>Claude37\_round\_3\<close>

text \<open>
  \<open>merge_continuation_lines\<close>: a line with a pipe opens a row; a non-blank line without
  one is appended to the last row (\<open>merged[-1] += ...\<close>) when there is a row; any other
  line is kept.
\<close>

fun Claude37_round_3_merge_loop :: "ustr list \<Rightarrow> ustr list \<Rightarrow> ustr list" where
  "Claude37_round_3_merge_loop merged [] = merged"
| "Claude37_round_3_merge_loop merged (line # rest) =
     (if has_pipe line then Claude37_round_3_merge_loop (merged @ [line]) rest
      else if merged \<noteq> [] \<and> strip line \<noteq> [] then
        Claude37_round_3_merge_loop (butlast merged @ [last merged @ [SPACE] @ strip line]) rest
      else Claude37_round_3_merge_loop (merged @ [line]) rest)"

definition Claude37_round_3_merge_continuation_lines :: "ustr list \<Rightarrow> ustr list" where
  "Claude37_round_3_merge_continuation_lines lines = Claude37_round_3_merge_loop [] lines"

definition Claude37_round_3_parse_table_row :: "ustr \<Rightarrow> ustr list" where
  "Claude37_round_3_parse_table_row line =
     (let parts = split_on PIPE line;
          parts = (if startswith_pipe (strip line) then slice_from parts 1 else parts);
          parts = (if endswith_pipe (strip line) then slice_to parts (- 1) else parts)
      in map strip parts)"

definition Claude37_round_3_is_separator_row :: "ustr list \<Rightarrow> bool" where
  "Claude37_round_3_is_separator_row cells =
     (if cells = [] then False
      else list_all (\<lambda>cell. sep_fullmatch (strip cell)) (filter (\<lambda>cell. strip cell \<noteq> []) cells))"

definition Claude37_round_3_is_valid_table :: "ustr list \<Rightarrow> bool" where
  "Claude37_round_3_is_valid_table lines =
     (if length lines < 2 then False
      else (case map Claude37_round_3_parse_table_row lines of
              r0 # r1 # rs \<Rightarrow>
                if \<not> Claude37_round_3_is_separator_row r1 then False
                else if \<not> list_all (\<lambda>row. length row = length r0) (r0 # r1 # rs) then False
                else True
            | _ \<Rightarrow> False))"

definition Claude37_round_3_get_table_style :: "ustr \<Rightarrow> bool \<times> bool" where
  "Claude37_round_3_get_table_style line =
     (let stripped = strip line in (startswith_pipe stripped, endswith_pipe stripped))"

text \<open>
  \<open>get_separator_style\<close>: the default is \<open>---\<close>; the first line that parses to a
  separator row ends the search, and its first non-blank cell, trimmed, is the style.
\<close>

fun Claude37_round_3_first_cell :: "ustr \<Rightarrow> ustr list \<Rightarrow> ustr" where
  "Claude37_round_3_first_cell sep_style [] = sep_style"
| "Claude37_round_3_first_cell sep_style (cell # cells) =
     (if strip cell \<noteq> [] then strip cell else Claude37_round_3_first_cell sep_style cells)"

fun Claude37_round_3_separator_style_loop :: "ustr \<Rightarrow> ustr list \<Rightarrow> ustr" where
  "Claude37_round_3_separator_style_loop sep_style [] = sep_style"
| "Claude37_round_3_separator_style_loop sep_style (line # rest) =
     (let cells = Claude37_round_3_parse_table_row line
      in if Claude37_round_3_is_separator_row cells then
           Claude37_round_3_first_cell sep_style cells
         else Claude37_round_3_separator_style_loop sep_style rest)"

definition Claude37_round_3_get_separator_style :: "ustr list \<Rightarrow> ustr" where
  "Claude37_round_3_get_separator_style lines = Claude37_round_3_separator_style_loop SEP3 lines"

text \<open>\<open>detect_table_pattern\<close>, the entry \<open>has_separators_after_each_row\<close> of its result.\<close>

definition Claude37_round_3_detect_table_pattern :: "ustr list \<Rightarrow> bool" where
  "Claude37_round_3_detect_table_pattern lines =
     (let parsed_rows = map Claude37_round_3_parse_table_row lines;
          separator_indices =
            map fst (filter (\<lambda>(i, row). Claude37_round_3_is_separator_row row)
                            (enumerate 0 parsed_rows))
      in if 2 \<le> length separator_indices then
           (if separator_indices \<noteq> [] \<and> list_all odd separator_indices then True else False)
         else False)"

definition Claude37_round_3_normalize_row :: "ustr list \<Rightarrow> int \<Rightarrow> ustr list" where
  "Claude37_round_3_normalize_row row target_cols =
     (if int (length row) < target_cols then
        row @ replicate (nat (target_cols - int (length row))) []
      else if int (length row) > target_cols then
        (let excess = join [SPACE] (slice_from row (target_cols - 1))
         in slice_to row (target_cols - 1) @ [excess])
      else row)"

definition Claude37_round_3_rebuild_row :: "ustr list \<Rightarrow> bool \<Rightarrow> bool \<Rightarrow> ustr" where
  "Claude37_round_3_rebuild_row cells has_leading_pipe has_trailing_pipe =
     (if cells = [] then []
      else
        (let cell_str = join BAR cells;
             cell_str = (if has_leading_pipe then [PIPE, SPACE] @ cell_str else cell_str);
             cell_str = (if has_trailing_pipe then cell_str @ [SPACE, PIPE] else cell_str)
         in cell_str))"

function Claude37_round_3_repeated_loop ::
  "ustr list list \<Rightarrow> bool list \<Rightarrow> bool \<times> bool \<Rightarrow> ustr list \<Rightarrow> nat \<Rightarrow> nat \<Rightarrow> ustr list
     \<Rightarrow> py_error + ustr list" where
  "Claude37_round_3_repeated_loop parsed_rows is_separator style separator max_cols i fixed_lines =
     (if i < length parsed_rows then
        (case get is_separator i of
           Inl e \<Rightarrow> Inl e
         | Inr f \<Rightarrow>
             if f then
               Claude37_round_3_repeated_loop parsed_rows is_separator style separator max_cols
                 (i + 1) fixed_lines
             else
               Claude37_round_3_repeated_loop parsed_rows is_separator style separator max_cols
                 (i + 1)
                 (fixed_lines @
                    [Claude37_round_3_rebuild_row
                       (Claude37_round_3_normalize_row (parsed_rows ! i) (int max_cols))
                       (fst style) (snd style),
                     Claude37_round_3_rebuild_row separator (fst style) (snd style)]))
      else Inr fixed_lines)"
  by pat_completeness auto
termination
  by (relation "measure (\<lambda>(parsed_rows, is_separator, style, separator, max_cols, i, fixed_lines).
                           length parsed_rows - i)") auto

declare Claude37_round_3_repeated_loop.simps [simp del]

fun Claude37_round_3_standard_loop ::
  "ustr list list \<Rightarrow> bool list \<Rightarrow> bool \<times> bool \<Rightarrow> nat \<Rightarrow> nat list \<Rightarrow> ustr list
     \<Rightarrow> py_error + ustr list" where
  "Claude37_round_3_standard_loop parsed_rows is_separator style max_cols [] fixed_lines =
     Inr fixed_lines"
| "Claude37_round_3_standard_loop parsed_rows is_separator style max_cols (i # is) fixed_lines =
     (case get is_separator i of
        Inl e \<Rightarrow> Inl e
      | Inr f \<Rightarrow>
          if f then
            Claude37_round_3_standard_loop parsed_rows is_separator style max_cols is fixed_lines
          else
            (case get parsed_rows i of
               Inl e \<Rightarrow> Inl e
             | Inr r \<Rightarrow>
                 Claude37_round_3_standard_loop parsed_rows is_separator style max_cols is
                   (fixed_lines @
                      [Claude37_round_3_rebuild_row
                         (Claude37_round_3_normalize_row r (int max_cols))
                         (fst style) (snd style)])))"

definition Claude37_round_3_fix_invalid_table :: "ustr list \<Rightarrow> py_error + ustr list" where
  "Claude37_round_3_fix_invalid_table lines =
     (if lines = [] then Inr []
      else
        (case get lines 0 of
           Inl e \<Rightarrow> Inl e
         | Inr first_line \<Rightarrow>
             (let style = Claude37_round_3_get_table_style first_line;
                  sep_style = Claude37_round_3_get_separator_style lines;
                  pattern = Claude37_round_3_detect_table_pattern lines;
                  parsed_rows = map Claude37_round_3_parse_table_row lines;
                  is_separator = map Claude37_round_3_is_separator_row parsed_rows
              in (case (if parsed_rows \<noteq> [] then max_len parsed_rows else Inr 0) of
                    Inl e \<Rightarrow> Inl e
                  | Inr max_cols \<Rightarrow>
                      (case get parsed_rows 0 of
                         Inl e \<Rightarrow> Inl e
                       | Inr r0 \<Rightarrow>
                           (let header = Claude37_round_3_normalize_row r0 (int max_cols);
                                separator = replicate max_cols sep_style;
                                fixed_lines =
                                  [Claude37_round_3_rebuild_row header (fst style) (snd style),
                                   Claude37_round_3_rebuild_row separator (fst style) (snd style)]
                            in if pattern then
                                 Claude37_round_3_repeated_loop parsed_rows is_separator style
                                   separator max_cols 1 fixed_lines
                               else
                                 Claude37_round_3_standard_loop parsed_rows is_separator style
                                   max_cols [1..<length parsed_rows] fixed_lines))))))"

text \<open>
  \<open>flush_table_block\<close>, on the state \<open>(result_lines, table_block)\<close>. A block with
  fewer than two pipe lines is copied and, as in the source, not cleared.
\<close>

definition Claude37_round_3_flush_table_block ::
  "ustr list \<times> ustr list \<Rightarrow> py_error + ustr list \<times> ustr list" where
  "Claude37_round_3_flush_table_block st =
     (case st of (result_lines, table_block) \<Rightarrow>
        if table_block = [] then Inr (result_lines, table_block)
        else if length (filter has_pipe table_block) < 2 then
          Inr (result_lines @ table_block, table_block)
        else
          (let merged_lines = Claude37_round_3_merge_continuation_lines table_block
           in if Claude37_round_3_is_valid_table merged_lines then
                Inr (result_lines @ table_block, [])
              else
                (case Claude37_round_3_fix_invalid_table merged_lines of
                   Inl e \<Rightarrow> Inl e
                 | Inr fixed_table \<Rightarrow> Inr (result_lines @ fixed_table, []))))"

fun Claude37_round_3_scan ::
  "ustr list \<Rightarrow> ustr list \<Rightarrow> bool \<Rightarrow> ustr list \<Rightarrow> py_error + ustr list" where
  "Claude37_round_3_scan result_lines table_block inside_table [] =
     (if inside_table then
        (case Claude37_round_3_flush_table_block (result_lines, table_block) of
           Inl e \<Rightarrow> Inl e
         | Inr (result_lines', table_block') \<Rightarrow> Inr result_lines')
      else Inr result_lines)"
| "Claude37_round_3_scan result_lines table_block inside_table (line # rest) =
     (if has_pipe line then
        (if \<not> inside_table then Claude37_round_3_scan result_lines [line] True rest
         else Claude37_round_3_scan result_lines (table_block @ [line]) inside_table rest)
      else if inside_table \<and> strip line \<noteq> [] then
        Claude37_round_3_scan result_lines (table_block @ [line]) inside_table rest
      else if inside_table then
        (case Claude37_round_3_flush_table_block (result_lines, table_block) of
           Inl e \<Rightarrow> Inl e
         | Inr (result_lines', table_block') \<Rightarrow>
             Claude37_round_3_scan (result_lines' @ [line]) table_block' False rest)
      else Claude37_round_3_scan (result_lines @ [line]) table_block inside_table rest)"

definition Claude37_round_3_fix_invalid_markdown_tables :: "ustr \<Rightarrow> py_error + ustr" where
  "Claude37_round_3_fix_invalid_markdown_tables markdown_text =
     (case Claude37_round_3_scan [] [] False (splitlines markdown_text) of
        Inl e \<Rightarrow> Inl e
      | Inr result_lines \<Rightarrow> Inr (join [LF] result_lines))"

section \<open>Grok3\_round\_1\<close>

definition Grok3_round_1_split_row :: "ustr \<Rightarrow> ustr list" where
  "Grok3_round_1_split_row row = map strip (split_on PIPE row)"

text \<open>
  The grouping loop of \<open>fix_invalid_markdown_tables\<close>: blocks are the maximal runs of
  non-blank lines; blank lines only close a block. The state is \<open>blocks\<close> and
  \<open>current_block\<close>.
\<close>

fun Grok3_round_1_group_loop :: "ustr list list \<Rightarrow> ustr list \<Rightarrow> ustr list \<Rightarrow> ustr list list" where
  "Grok3_round_1_group_loop blocks current_block [] =
     (if current_block \<noteq> [] then blocks @ [current_block] else blocks)"
| "Grok3_round_1_group_loop blocks current_block (line # rest) =
     (if strip line \<noteq> [] then Grok3_round_1_group_loop blocks (current_block @ [line]) rest
      else if current_block \<noteq> [] then Grok3_round_1_group_loop (blocks @ [current_block]) [] rest
      else Grok3_round_1_group_loop blocks current_block rest)"

definition Grok3_round_1_blocks :: "ustr list \<Rightarrow> ustr list list" where
  "Grok3_round_1_blocks lines = Grok3_round_1_group_loop [] [] lines"

text \<open>\<open>cells += [''] * (num_columns - len(cells))\<close> when the row is short.\<close>

definition Grok3_round_1_pad :: "ustr list \<Rightarrow> nat \<Rightarrow> ustr list" where
  "Grok3_round_1_pad cells num_columns =
     (if length cells < num_columns then cells @ replicate (num_columns - length cells) []
      else cells)"

definition Grok3_round_1_format :: "ustr list \<Rightarrow> ustr" where
  "Grok3_round_1_format cells = [PIPE, SPACE] @ join BAR cells @ [SPACE, PIPE]"

text \<open>The body of the loop over the blocks: what is appended to \<open>fixed_blocks\<close>.\<close>

definition Grok3_round_1_fix_block :: "ustr list \<Rightarrow> py_error + ustr" where
  "Grok3_round_1_fix_block block =
     (let pipe_lines = length (filter has_pipe block)
      in if pipe_lines < 3 then Inr (join [LF] block)
         else
           (let cell_lists = map Grok3_round_1_split_row block
            in (case max_len cell_lists of
                  Inl e \<Rightarrow> Inl e
                | Inr num_columns \<Rightarrow>
                    (case get block 0 of
                       Inl e \<Rightarrow> Inl e
                     | Inr first \<Rightarrow>
                         (let header_cells = Grok3_round_1_pad (Grok3_round_1_split_row first) num_columns;
                              separator = Grok3_round_1_format (replicate num_columns SEP3);
                              fixed_lines =
                                [Grok3_round_1_format header_cells, separator] @
                                map (\<lambda>line. Grok3_round_1_format
                                               (Grok3_round_1_pad (Grok3_round_1_split_row line) num_columns))
                                    (slice_from block 1)
                          in Inr (join [LF] fixed_lines))))))"

fun Grok3_round_1_process_blocks :: "ustr list \<Rightarrow> ustr list list \<Rightarrow> py_error + ustr list" where
  "Grok3_round_1_process_blocks fixed_blocks [] = Inr fixed_blocks"
| "Grok3_round_1_process_blocks fixed_blocks (block # blocks) =
     (case Grok3_round_1_fix_block block of
        Inl e \<Rightarrow> Inl e
      | Inr b \<Rightarrow> Grok3_round_1_process_blocks (fixed_blocks @ [b]) blocks)"

definition Grok3_round_1_fix_invalid_markdown_tables :: "ustr \<Rightarrow> py_error + ustr" where
  "Grok3_round_1_fix_invalid_markdown_tables markdown_text =
     (let lines = splitlines markdown_text;
          blocks = Grok3_round_1_blocks lines
      in (case Grok3_round_1_process_blocks [] blocks of
            Inl e \<Rightarrow> Inl e
          | Inr fixed_blocks \<Rightarrow> Inr (join [LF, LF] fixed_blocks)))"

section \<open>Claude37\_round\_1\<close>

text \<open>
  \<open>re.split(r'\n\s*\n', text)\<close>. A match starts at a \<open>\n\<close>; \<open>\s*\<close> is greedy and
  backtracks, so the match ends at the last \<open>\n\<close> of the whitespace run that follows,
  and there is no match at this \<open>\n\<close> when that run holds no \<open>\n\<close>. The search goes on
  after the match; the pieces between the matches are returned.
\<close>

definition blank_gap :: "ustr \<Rightarrow> nat option" where
  "blank_gap r =
     (let w = takeWhile isspace r
      in if LF \<in> set w then Some (length (rev (dropWhile (\<lambda>c. c \<noteq> LF) (rev w)))) else None)"

lemma blank_gap_le: "blank_gap r = Some k \<Longrightarrow> k \<le> length r"
proof -
  assume a: "blank_gap r = Some k"
  let ?w = "takeWhile isspace r"
  from a have "k = length (dropWhile (\<lambda>c. c \<noteq> LF) (rev ?w))"
    by (auto simp: blank_gap_def Let_def split: if_splits)
  also have "\<dots> \<le> length (rev ?w)" by (rule length_dropWhile_le)
  also have "\<dots> \<le> length r" by (simp add: length_takeWhile_le)
  finally show ?thesis .
qed

function re_split_blank :: "ustr \<Rightarrow> ustr \<Rightarrow> ustr list" where
  "re_split_blank cur [] = [cur]"
| "re_split_blank cur (c # r) =
     (if c = LF then
        (case blank_gap r of
           Some k \<Rightarrow> cur # re_split_blank [] (drop k r)
         | None \<Rightarrow> re_split_blank (cur @ [c]) r)
      else re_split_blank (cur @ [c]) r)"
  by pat_completeness auto
termination
  by (relation "measure (\<lambda>(cur, s). length s)") auto

text \<open>\<open>sub in s\<close> for strings.\<close>

fun contains :: "ustr \<Rightarrow> ustr \<Rightarrow> bool" where
  "contains sub [] = (sub = [])"
| "contains sub (c # cs) = (if take (length sub) (c # cs) = sub then True else contains sub cs)"

text \<open>
  \<open>re.match(r'^[\s|:-]+$', line) and '---' in line\<close>: the class has the newline in it,
  so the pattern matches exactly the non-empty strings of class characters.
\<close>

definition matches_separator_line :: "ustr \<Rightarrow> bool" where
  "matches_separator_line line \<longleftrightarrow>
     line \<noteq> [] \<and> list_all (\<lambda>c. isspace c \<or> c = PIPE \<or> c = COLON \<or> c = DASH) line
     \<and> contains SEP3 line"

text \<open>\<open>[line for line in table_text.split('\n') if line.strip()]\<close>\<close>

definition Claude37_round_1_lines :: "ustr \<Rightarrow> ustr list" where
  "Claude37_round_1_lines table_text = filter (\<lambda>line. strip line \<noteq> []) (split_on LF table_text)"

text \<open>
  \<open>len(line.split('|')) - 1\<close>: a split has at least one piece, so the difference is a
  natural number.
\<close>

definition columns :: "ustr \<Rightarrow> nat" where
  "columns line = length (split_on PIPE line) - 1"

text \<open>
  \<open>while len(cells) - 1 < max_columns: cells.append('')\<close>, then
  \<open>cells = cells[:max_columns + 1]\<close>.
\<close>

definition Claude37_round_1_fit :: "ustr list \<Rightarrow> nat \<Rightarrow> ustr list" where
  "Claude37_round_1_fit cells max_columns =
     take (max_columns + 1) (cells @ replicate (max_columns + 1 - length cells) [])"

text \<open>\<open>'|' + '|'.join(cells) + '|'\<close>\<close>

definition Claude37_round_1_bars :: "ustr list \<Rightarrow> ustr" where
  "Claude37_round_1_bars cells = [PIPE] @ join [PIPE] cells @ [PIPE]"

definition Claude37_round_1_is_table_valid :: "ustr \<Rightarrow> bool" where
  "Claude37_round_1_is_table_valid table_text =
     (case Claude37_round_1_lines table_text of
        l0 # separator_line # rest \<Rightarrow>
          if \<not> list_all (\<lambda>c. c = PIPE \<or> c = COLON \<or> c = DASH \<or> c = SPACE) separator_line
          then False
          else if columns l0 \<noteq> columns separator_line then False
          else list_all (\<lambda>line. columns line = columns l0) rest
      | _ \<Rightarrow> False)"

text \<open>
  The inner \<open>while\<close> of \<open>fix_complex_table\<close>: lines after \<open>i\<close> that are neither
  separators nor start with a pipe are appended to \<open>current_row[-1]\<close>. It returns
  \<open>j\<close> and \<open>current_row\<close>.
\<close>

function Claude37_round_1_inner ::
  "ustr list \<Rightarrow> nat list \<Rightarrow> nat \<Rightarrow> ustr list \<Rightarrow> py_error + nat \<times> ustr list" where
  "Claude37_round_1_inner lines separator_indices j current_row =
     (if j < length lines \<and> j \<notin> set separator_indices
         \<and> \<not> startswith_pipe (strip (lines ! j)) then
        (case rev current_row of
           [] \<Rightarrow> Inl IndexError
         | l # _ \<Rightarrow>
             Claude37_round_1_inner lines separator_indices (j + 1)
               (butlast current_row @ [l @ [SPACE] @ strip (lines ! j)]))
      else Inr (j, current_row))"
  by pat_completeness auto
termination
  by (relation "measure (\<lambda>(lines, separator_indices, j, current_row). length lines - j)") auto

declare Claude37_round_1_inner.simps [simp del]

lemma Claude37_round_1_inner_ge:
  "Claude37_round_1_inner lines sep j cur = Inr (j', cur') \<Longrightarrow> j \<le> j'"
proof (induction lines sep j cur rule: Claude37_round_1_inner.induct)
  case (1 lines sep j cur)
  show ?case
  proof (cases "j < length lines \<and> j \<notin> set sep \<and> \<not> startswith_pipe (strip (lines ! j))")
    case False
    have "Claude37_round_1_inner lines sep j cur = Inr (j, cur)"
      by (subst Claude37_round_1_inner.simps, subst if_not_P[OF False]) simp
    with "1.prems" show ?thesis by simp
  next
    case True
    have u: "Claude37_round_1_inner lines sep j cur =
               (case rev cur of
                  [] \<Rightarrow> Inl IndexError
                | l # _ \<Rightarrow>
                    Claude37_round_1_inner lines sep (j + 1)
                      (butlast cur @ [l @ [SPACE] @ strip (lines ! j)]))"
      by (subst Claude37_round_1_inner.simps, subst if_P[OF True]) simp
    show ?thesis
    proof (cases "rev cur")
      case Nil
      with u "1.prems" show ?thesis by simp
    next
      case (Cons l ls)
      with u "1.prems"
      have "Claude37_round_1_inner lines sep (j + 1)
              (butlast cur @ [l @ [SPACE] @ strip (lines ! j)]) = Inr (j', cur')"
        by simp
      from "1.IH"[OF True Cons this] show ?thesis by simp
    qed
  qed
qed

lemma Claude37_round_1_inner_step:
  assumes "i < length lines"
    and "Claude37_round_1_inner lines sep (i + 1) cur = Inr b" and "(x, y) = b"
  shows "length lines - x < length lines - i"
proof -
  from assms(2,3) have "Claude37_round_1_inner lines sep (i + 1) cur = Inr (x, y)" by simp
  then have "i + 1 \<le> x" by (rule Claude37_round_1_inner_ge)
  with assms(1) show ?thesis by simp
qed

text \<open>
  The outer \<open>while i < len(lines)\<close> of \<open>fix_complex_table\<close>, on the state \<open>i\<close>,
  \<open>rows\<close>, \<open>current_row\<close>.
\<close>

function Claude37_round_1_outer ::
  "ustr list \<Rightarrow> nat list \<Rightarrow> nat \<Rightarrow> ustr list list \<Rightarrow> ustr list
     \<Rightarrow> py_error + ustr list list \<times> ustr list" where
  "Claude37_round_1_outer lines separator_indices i rows current_row =
     (if i < length lines then
        (if i \<in> set separator_indices then
           Claude37_round_1_outer lines separator_indices (i + 1)
             ((if current_row \<noteq> [] then rows @ [current_row] else rows) @ [[lines ! i]]) []
         else
           (case Claude37_round_1_inner lines separator_indices (i + 1) [lines ! i] of
              Inl e \<Rightarrow> Inl e
            | Inr (j, current_row') \<Rightarrow>
                if length lines \<le> j \<or> j \<in> set separator_indices then
                  (if current_row' \<noteq> [] then
                     Claude37_round_1_outer lines separator_indices j (rows @ [current_row']) []
                   else Claude37_round_1_outer lines separator_indices j rows current_row')
                else Claude37_round_1_outer lines separator_indices j rows current_row'))
      else Inr (rows, current_row))"
  by pat_completeness auto
termination
proof (relation "measure (\<lambda>(lines, separator_indices, i, rows, current_row). length lines - i)",
       goal_cases)
  case 1
  show ?case by simp
next
  case 2
  then show ?case by simp
next
  case (3 lines separator_indices i rows current_row b x y)
  from Claude37_round_1_inner_step[OF 3(1) 3(3) 3(4)] show ?case by simp
next
  case (4 lines separator_indices i rows current_row b x y)
  from Claude37_round_1_inner_step[OF 4(1) 4(3) 4(4)] show ?case by simp
next
  case (5 lines separator_indices i rows current_row b x y)
  from Claude37_round_1_inner_step[OF 5(1) 5(3) 5(4)] show ?case by simp
qed

declare Claude37_round_1_outer.simps [simp del]

text \<open>
  \<open>next((i for i, row in enumerate(rows) if '---' in row[0]), -1)\<close>; \<open>None\<close> stands
  for \<open>-1\<close>.
\<close>

fun Claude37_round_1_first_separator :: "nat \<Rightarrow> ustr list list \<Rightarrow> py_error + nat option" where
  "Claude37_round_1_first_separator i [] = Inr None"
| "Claude37_round_1_first_separator i (row # rows) =
     (case get row 0 of
        Inl e \<Rightarrow> Inl e
      | Inr r0 \<Rightarrow> if contains SEP3 r0 then Inr (Some i)
                  else Claude37_round_1_first_separator (i + 1) rows)"

text \<open>\<open>for i, row in enumerate(rows): if i != 0 and i != first_separator_idx: new_rows.append(row[0])\<close>\<close>

fun Claude37_round_1_other_rows ::
  "nat \<Rightarrow> ustr list \<Rightarrow> (nat \<times> ustr list) list \<Rightarrow> py_error + ustr list" where
  "Claude37_round_1_other_rows idx new_rows [] = Inr new_rows"
| "Claude37_round_1_other_rows idx new_rows ((i, row) # rest) =
     (if i \<noteq> 0 \<and> i \<noteq> idx then
        (case get row 0 of
           Inl e \<Rightarrow> Inl e
         | Inr r0 \<Rightarrow> Claude37_round_1_other_rows idx (new_rows @ [r0]) rest)
      else Claude37_round_1_other_rows idx new_rows rest)"

text \<open>\<open>max(len(row.split('|')) - 1 for row in new_rows)\<close>: \<open>ValueError\<close> on no rows.\<close>

definition max_columns_of :: "ustr list \<Rightarrow> py_error + nat" where
  "max_columns_of rows =
     (case rows of [] \<Rightarrow> Inl ValueError
      | r # rs \<Rightarrow> Inr (fold (\<lambda>x m. max m (columns x)) rs (columns r)))"

definition Claude37_round_1_separator_indices :: "ustr list \<Rightarrow> nat list" where
  "Claude37_round_1_separator_indices lines =
     map fst (filter (\<lambda>(i, line). matches_separator_line line) (enumerate 0 lines))"

text \<open>
  \<open>fix_complex_table\<close>, more than one separator line: the table built from the
  collected \<open>rows\<close>, after the loops.
\<close>

definition Claude37_round_1_rows_table :: "ustr list list \<Rightarrow> py_error + ustr" where
  "Claude37_round_1_rows_table rows =
     (case (if rows \<noteq> [] then (case get rows 0 of Inl e \<Rightarrow> Inl e | Inr r \<Rightarrow> get r 0)
            else Inr []) of
        Inl e \<Rightarrow> Inl e
      | Inr header_row \<Rightarrow>
          (case Claude37_round_1_first_separator 0 rows of
             Inl e \<Rightarrow> Inl e
           | Inr first_separator_idx \<Rightarrow>
               (case (case first_separator_idx of
                        None \<Rightarrow>
                          Inr [header_row,
                               Claude37_round_1_bars (replicate (columns header_row) SEP3)]
                      | Some idx \<Rightarrow>
                          (case get rows idx of
                             Inl e \<Rightarrow> Inl e
                           | Inr r \<Rightarrow>
                               (case get r 0 of
                                  Inl e \<Rightarrow> Inl e
                                | Inr separator_row \<Rightarrow>
                                    Claude37_round_1_other_rows idx [header_row, separator_row]
                                      (enumerate 0 rows)))) of
                  Inl e \<Rightarrow> Inl e
                | Inr new_rows \<Rightarrow>
                    (case max_columns_of new_rows of
                       Inl e \<Rightarrow> Inl e
                     | Inr max_columns \<Rightarrow>
                         Inr (join [LF]
                           (map (\<lambda>(i, row).
                                   let cells = Claude37_round_1_fit (split_on PIPE row) max_columns
                                   in if i = 1 then
                                        Claude37_round_1_bars
                                          (map (\<lambda>cell. SEP3) (slice_from cells 1))
                                      else Claude37_round_1_bars (slice_from cells 1))
                                (enumerate 0 new_rows)))))))"

text \<open>\<open>fix_complex_table\<close>, exactly one separator line.\<close>

definition Claude37_round_1_single_separator :: "ustr list \<Rightarrow> nat list \<Rightarrow> py_error + ustr" where
  "Claude37_round_1_single_separator lines separator_indices =
     (case get lines 0 of
        Inl e \<Rightarrow> Inl e
      | Inr header \<Rightarrow>
          (case get separator_indices 0 of
             Inl e \<Rightarrow> Inl e
           | Inr s0 \<Rightarrow>
               (case get lines s0 of
                  Inl e \<Rightarrow> Inl e
                | Inr separator \<Rightarrow>
                    (let data_rows =
                           map snd (filter (\<lambda>(i, line). i \<noteq> 0 \<and> i \<noteq> s0) (enumerate 0 lines));
                         max_columns =
                           max (max (columns header) (columns separator))
                               (fold (\<lambda>row m. max m (columns row)) data_rows 0);
                         pad = (\<lambda>cells. cells @ replicate (max_columns - length cells) []);
                         header_cells = pad (slice_to (slice_from (split_on PIPE header) 1) (- 1));
                         fixed_data_rows =
                           map (\<lambda>row. Claude37_round_1_bars
                                         (pad (slice_to (slice_from (split_on PIPE row) 1) (- 1))))
                               data_rows
                     in Inr (join [LF]
                               ([Claude37_round_1_bars header_cells,
                                 Claude37_round_1_bars (replicate max_columns SEP3)]
                                @ fixed_data_rows))))))"

definition Claude37_round_1_fix_complex_table :: "ustr \<Rightarrow> py_error + ustr" where
  "Claude37_round_1_fix_complex_table table_text =
     (let lines = Claude37_round_1_lines table_text;
          separator_indices = Claude37_round_1_separator_indices lines
      in if 1 < length separator_indices then
           (case Claude37_round_1_outer lines separator_indices 0 [] [] of
              Inl e \<Rightarrow> Inl e
            | Inr (rows, current_row) \<Rightarrow>
                Claude37_round_1_rows_table
                  (if current_row \<noteq> [] then rows @ [current_row] else rows))
         else if separator_indices \<noteq> [] then
           Claude37_round_1_single_separator lines separator_indices
         else Inr table_text)"

text \<open>
  \<open>fix_table\<close>: \<open>len(separator_indices) > 1 and separator_indices[0] + 1 !=
  separator_indices[1]\<close>.
\<close>

definition Claude37_round_1_repeated_separators :: "nat list \<Rightarrow> py_error + bool" where
  "Claude37_round_1_repeated_separators separator_indices =
     (if 1 < length separator_indices then
        (case get separator_indices 0 of
           Inl e \<Rightarrow> Inl e
         | Inr s0 \<Rightarrow>
             (case get separator_indices 1 of
                Inl e \<Rightarrow> Inl e
              | Inr s1 \<Rightarrow> Inr (s0 + 1 \<noteq> s1)))
      else Inr False)"

text \<open>\<open>fix_table\<close>, repeated separators: all separator lines but the first are dropped.\<close>

definition Claude37_round_1_drop_separators :: "ustr list \<Rightarrow> nat list \<Rightarrow> py_error + ustr list" where
  "Claude37_round_1_drop_separators lines separator_indices =
     (case get lines 0 of
        Inl e \<Rightarrow> Inl e
      | Inr header_row \<Rightarrow>
          (case get separator_indices 0 of
             Inl e \<Rightarrow> Inl e
           | Inr s0 \<Rightarrow>
               (case get lines s0 of
                  Inl e \<Rightarrow> Inl e
                | Inr first_separator \<Rightarrow>
                    (let data_rows =
                           map snd (filter (\<lambda>(i, line). i \<notin> set separator_indices)
                                           (enumerate 0 lines))
                     in (case get data_rows 0 of
                           Inl e \<Rightarrow> Inl e
                         | Inr d0 \<Rightarrow> Inr ([d0, first_separator] @ slice_from data_rows 1))))))"

text \<open>\<open>fix_table\<close>, otherwise: every line is brought to \<open>max_columns\<close> cells.\<close>

definition Claude37_round_1_normalize_columns :: "ustr list \<Rightarrow> nat list \<Rightarrow> nat \<Rightarrow> ustr list" where
  "Claude37_round_1_normalize_columns lines separator_indices max_columns =
     map (\<lambda>(i, line).
            let cells = Claude37_round_1_fit (split_on PIPE line) max_columns
            in if i \<in> set separator_indices then
                 Claude37_round_1_bars (map (\<lambda>cell. SEP3) (slice_from cells 1))
               else Claude37_round_1_bars (slice_from cells 1))
         (enumerate 0 lines)"

definition Claude37_round_1_fix_table :: "ustr \<Rightarrow> py_error + ustr" where
  "Claude37_round_1_fix_table table_text =
     (let lines = Claude37_round_1_lines table_text;
          separator_indices =
            map fst (filter (\<lambda>(i, line). 0 < i \<and> matches_separator_line line) (enumerate 0 lines))
      in if separator_indices = [] then Inr table_text
         else
           (let max_columns = fold (\<lambda>line m. max m (columns line)) lines 0
            in (case Claude37_round_1_repeated_separators separator_indices of
                  Inl e \<Rightarrow> Inl e
                | Inr repeated_separators \<Rightarrow>
                    (case (if repeated_separators then
                             Claude37_round_1_drop_separators lines separator_indices
                           else
                             Inr (Claude37_round_1_normalize_columns lines separator_indices
                                    max_columns)) of
                       Inl e \<Rightarrow> Inl e
                     | Inr fixed_lines \<Rightarrow>
                         (let fixed_table = join [LF] fixed_lines
                          in if Claude37_round_1_is_table_valid fixed_table then Inr fixed_table
                             else Claude37_round_1_fix_complex_table table_text)))))"

text \<open>
  The test of \<open>fix_invalid_markdown_tables\<close> on a block: it has a pipe, and one of
  its lines with a pipe has a hyphen (\<open>re.search(r'[-]+', line)\<close>).
\<close>

definition Claude37_round_1_is_candidate :: "ustr \<Rightarrow> bool" where
  "Claude37_round_1_is_candidate block \<longleftrightarrow>
     has_pipe block \<and> list_ex (\<lambda>line. DASH \<in> set line) (filter has_pipe (split_on LF block))"

fun Claude37_round_1_blocks_loop :: "ustr list \<Rightarrow> ustr list \<Rightarrow> py_error + ustr list" where
  "Claude37_round_1_blocks_loop fixed_blocks [] = Inr fixed_blocks"
| "Claude37_round_1_blocks_loop fixed_blocks (block # blocks) =
     (if Claude37_round_1_is_candidate block then
        (case Claude37_round_1_fix_table block of
           Inl e \<Rightarrow> Inl e
         | Inr fixed_block \<Rightarrow> Claude37_round_1_blocks_loop (fixed_blocks @ [fixed_block]) blocks)
      else Claude37_round_1_blocks_loop (fixed_blocks @ [block]) blocks)"

definition Claude37_round_1_fix_invalid_markdown_tables :: "ustr \<Rightarrow> py_error + ustr" where
  "Claude37_round_1_fix_invalid_markdown_tables markdown_text =
     (case Claude37_round_1_blocks_loop [] (re_split_blank [] markdown_text) of
        Inl e \<Rightarrow> Inl e
      | Inr fixed_blocks \<Rightarrow> Inr (join [LF, LF] fixed_blocks))"

section \<open>Specification predicates\<close>

text \<open>
  The substrings \<open>cs\<close> occur in \<open>s\<close> one after the other, without overlap: what
  "contains each cell in order" means for a merged cell.
\<close>

fun occurs_in_order :: "ustr list \<Rightarrow> ustr \<Rightarrow> bool" where
  "occurs_in_order [] s = True"
| "occurs_in_order (c # cs) s =
     list_ex (\<lambda>i. take (length c) (drop i s) = c \<and> occurs_in_order cs (drop (i + length c) s))
       [0..<Suc (length s)]"

text \<open>
  The classification rule in the words of the specification: the separator rows are at
  least two, and at least half of their indices are odd.
\<close>

definition spec_repeated_layout :: "ustr list list \<Rightarrow> bool" where
  "spec_repeated_layout rows =
     (let sep_indices = filter (\<lambda>i. O1_pro_round_5_is_separator_row (rows ! i)) [0..<length rows]
      in 2 \<le> length sep_indices \<and> length sep_indices \<le> 2 * length (filter odd sep_indices))"

text \<open>The cells of a row that are not blank.\<close>

definition nonblank :: "ustr list \<Rightarrow> ustr list" where
  "nonblank cells = filter (\<lambda>c. strip c \<noteq> []) cells"

subsection \<open>The scan of Claude37\_round\_5 as a function\<close>

text \<open>
  Functions read off the code of \<open>Claude37_round_5\<close>, for stating and proving what two
  applications do. Each is tied to the code by a lemma: \<open>fix_table_block\<close> rebuilds the
  rows of \<open>Claude37_round_5_emitted\<close>, \<open>_process_table_block\<close> returns
  \<open>Claude37_round_5_block_output\<close>, and the scan returns \<open>Claude37_round_5_output\<close>.
\<close>






section \<open>Properties\<close>

subsection \<open>Overflow cells are merged, not dropped\<close>

lemma list_ex_upt_Suc: "list_ex P [0..<Suc n] \<longleftrightarrow> (\<exists>i\<le>n. P i)"
proof -
  have "set [0..<Suc n] = {i. i \<le> n}" by (auto simp del: upt_Suc)
  then show ?thesis by (auto simp: list_ex_iff simp del: upt_Suc)
qed

lemma occurs_in_order_join:
  "occurs_in_order cs (pre @ join sep cs)"
proof (induction cs arbitrary: pre)
  case Nil
  show ?case by simp
next
  case (Cons c cs)
  show ?case
  proof (cases cs)
    case Nil
    have "take (length c) (drop (length pre) (pre @ c)) = c" by simp
    then show ?thesis
      unfolding Nil occurs_in_order.simps join.simps list_ex_upt_Suc
      by (intro exI[of _ "length pre"]) simp
  next
    case (Cons d ds)
    have a: "take (length c) (drop (length pre) (pre @ c @ sep @ join sep (d # ds))) = c" by simp
    have "drop (length pre + length c) (pre @ c @ sep @ join sep (d # ds)) = sep @ join sep (d # ds)"
      by simp
    moreover have "occurs_in_order (d # ds) (sep @ join sep (d # ds))"
      using Cons.IH[of sep] Cons by simp
    ultimately have b: "occurs_in_order (d # ds) (drop (length pre + length c) (pre @ c @ sep @ join sep (d # ds)))"
      by simp
    show ?thesis
      unfolding Cons join.simps occurs_in_order.simps(2)[of c] list_ex_upt_Suc
      using a b by (intro exI[of _ "length pre"]) simp
  qed
qed

text \<open>
  C4. For a row of more than \<open>target_cols\<close> cells, with \<open>target_cols\<close> at least one,
  \<open>O1_pro_round_5._normalize_row\<close> returns exactly \<open>target_cols\<close> cells; the first
  \<open>target_cols - 1\<close> are the original ones; the last is the overflow cells
  \<open>row[target_cols-1:]\<close> joined by single spaces, so each of them occurs in it, in
  order, as a substring.
\<close>

theorem O1_pro_round_5_normalize_row_overflow:
  assumes "1 \<le> target_cols" and "target_cols < int (length row)"
  shows "length (O1_pro_round_5_normalize_row row target_cols) = nat target_cols
       \<and> take (nat target_cols - 1) (O1_pro_round_5_normalize_row row target_cols)
           = take (nat target_cols - 1) row
       \<and> last (O1_pro_round_5_normalize_row row target_cols)
           = join [SPACE] (drop (nat target_cols - 1) row)
       \<and> occurs_in_order (drop (nat target_cols - 1) row)
           (last (O1_pro_round_5_normalize_row row target_cols))"
proof -
  have n: "O1_pro_round_5_normalize_row row target_cols
             = take (nat target_cols - 1) row @ [join [SPACE] (drop (nat target_cols - 1) row)]"
    using assms
    by (simp add: O1_pro_round_5_normalize_row_def slice_to_def slice_from_def nat_diff_distrib)
  have l: "length (take (nat target_cols - 1) row) = nat target_cols - 1"
    using assms by simp
  have o: "occurs_in_order (drop (nat target_cols - 1) row)
             ([] @ join [SPACE] (drop (nat target_cols - 1) row))"
    by (rule occurs_in_order_join)
  show ?thesis
    unfolding n using l o assms by simp
qed

theorem O1_pro_round_5_normalize_row_overflow_witness:
  "(1::int) \<le> 2 \<and> (2::int) < int (length [u ''a'', u ''b'', u ''c'', u ''d''])
   \<and> O1_pro_round_5_normalize_row [u ''a'', u ''b'', u ''c'', u ''d''] 2 = [u ''a'', u ''b c d'']
   \<and> occurs_in_order [u ''b'', u ''c'', u ''d''] (u ''b c d'')"
proof -
  have h1: "(1::int) \<le> 2" by simp
  have h2: "(2::int) < int (length [u ''a'', u ''b'', u ''c'', u ''d''])" by simp
  have e: "O1_pro_round_5_normalize_row [u ''a'', u ''b'', u ''c'', u ''d''] 2 = [u ''a'', u ''b c d'']"
    by (simp add: O1_pro_round_5_normalize_row_def slice_to_def slice_from_def u_def SPACE_def)
  from O1_pro_round_5_normalize_row_overflow[OF h1 h2]
  have "occurs_in_order (drop (nat 2 - 1) [u ''a'', u ''b'', u ''c'', u ''d''])
           (last (O1_pro_round_5_normalize_row [u ''a'', u ''b'', u ''c'', u ''d''] 2))"
    by blast
  then have "occurs_in_order [u ''b'', u ''c'', u ''d''] (u ''b c d'')"
    unfolding e by simp
  with h1 h2 e show ?thesis by blast
qed

subsection \<open>Evaluation\<close>

lemmas str_defs = u_def PIPE_def LF_def CR_def SPACE_def DASH_def COLON_def isspace_def islinebreak_def
  lstrip_def rstrip_def strip_def has_pipe_def startswith_pipe_def endswith_pipe_def SEP3_def BAR_def
  sep_fullmatch_def slice_to_def slice_from_def odd_range_def get_def max_len_def

lemmas O1_pro_round_5_defs = O1_pro_round_5_merge_flush_def O1_pro_round_5_merge_continuation_lines_def
  O1_pro_round_5_parse_row_def O1_pro_round_5_is_separator_cell_def O1_pro_round_5_is_separator_row_def
  O1_pro_round_5_is_valid_table_def O1_pro_round_5_detect_repeated_separators_def
  O1_pro_round_5_normalize_row_def O1_pro_round_5_rebuild_row_def O1_pro_round_5_repeated_loop.simps
  O1_pro_round_5_fix_invalid_table_def O1_pro_round_5_process_table_block_def
  O1_pro_round_5_fix_invalid_markdown_tables_def

subsection \<open>Lists\<close>

lemma drop_as_nth_map: "map ((!) xs) [k..<length xs] = drop k xs"
  by (rule nth_equalityI) auto

lemma index_filter_as_rows:
  "map (\<lambda>i. g (xs ! i)) (filter (\<lambda>i. P (xs ! i)) [k..<length xs]) = map g (filter P (drop k xs))"
proof -
  have "map g (filter P (drop k xs)) = map g (filter P (map ((!) xs) [k..<length xs]))"
    by (simp only: drop_as_nth_map)
  also have "\<dots> = map (\<lambda>i. g (xs ! i)) (filter (\<lambda>i. P (xs ! i)) [k..<length xs])"
    by (simp add: filter_map comp_def)
  finally show ?thesis by simp
qed

lemma fold_max_length:
  "fold (\<lambda>x m. max m (length x)) rs a = Max (insert a (length ` set rs))"
proof (induction rs arbitrary: a)
  case Nil
  show ?case by simp
next
  case (Cons r rs)
  have "Max (insert (max a (length r)) (length ` set rs))
          = Max (insert a (insert (length r) (length ` set rs)))"
    by (cases "rs = []") (simp_all add: max.assoc)
  with Cons show ?case by simp
qed

lemma max_len_Max: "rows \<noteq> [] \<Longrightarrow> max_len rows = Inr (Max (length ` set rows))"
  by (cases rows) (simp_all add: max_len_def fold_max_length)

lemma strip_Nil: "strip [] = []"
  by (simp add: strip_def lstrip_def rstrip_def)

subsection \<open>Trimming, splitting and joining\<close>

lemma isspace_SPACE: "isspace SPACE"
  by (simp add: isspace_def SPACE_def)

lemma not_isspace_PIPE: "\<not> isspace PIPE"
  by (simp add: isspace_def PIPE_def)

lemma blank_no_pipe: "\<forall>c\<in>set w. isspace c \<Longrightarrow> PIPE \<notin> set w"
  using not_isspace_PIPE by auto

lemma strip_blank: "\<forall>c\<in>set w. isspace c \<Longrightarrow> strip w = []"
proof -
  assume "\<forall>c\<in>set w. isspace c"
  then have "dropWhile isspace w = []" by (simp only: dropWhile_eq_Nil_conv)
  then show ?thesis
    unfolding strip_def lstrip_def rstrip_def by (simp only: rev.simps dropWhile.simps)
qed

lemma strip_unique:
  assumes a: "\<forall>c\<in>set a. isspace c" and b: "\<forall>c\<in>set b. isspace c"
    and t: "t = [] \<or> (\<not> isspace (hd t) \<and> \<not> isspace (last t))"
  shows "strip (a @ t @ b) = t"
proof (cases "t = []")
  case True
  have "\<forall>c\<in>set (a @ b). isspace c" using a b by auto
  then have "strip (a @ b) = []" by (rule strip_blank)
  with True show ?thesis by simp
next
  case False
  with t have h: "\<not> isspace (hd t)" and l: "\<not> isspace (last t)" by auto
  have "dropWhile isspace (a @ t @ b) = dropWhile isspace (t @ b)"
    by (rule dropWhile_append2) (use a in auto)
  also have "\<dots> = t @ b" using False h by (cases t) auto
  finally have 1: "lstrip (a @ t @ b) = t @ b" by (simp add: lstrip_def)
  have "dropWhile isspace (rev b @ rev t) = dropWhile isspace (rev t)"
    by (rule dropWhile_append2) (use b in auto)
  also have "\<dots> = rev t" using False l by (cases "rev t") (auto simp: last_rev[symmetric] simp del: last_rev)
  finally have "rstrip (t @ b) = t" by (simp add: rstrip_def)
  with 1 show ?thesis by (simp add: strip_def)
qed

lemma strip_decomp:
  "\<exists>a b. s = a @ strip s @ b \<and> (\<forall>c\<in>set a. isspace c) \<and> (\<forall>c\<in>set b. isspace c)
         \<and> (strip s = [] \<or> (\<not> isspace (hd (strip s)) \<and> \<not> isspace (last (strip s))))"
proof -
  define a where "a = takeWhile isspace s"
  define t where "t = dropWhile isspace s"
  define b where "b = rev (takeWhile isspace (rev t))"
  define r where "r = rev (dropWhile isspace (rev t))"
  have s: "s = a @ t" by (simp add: a_def t_def)
  have "rev t = takeWhile isspace (rev t) @ dropWhile isspace (rev t)" by simp
  then have "rev (rev t) = rev (takeWhile isspace (rev t) @ dropWhile isspace (rev t))" by simp
  then have tt: "t = r @ b" unfolding rev_append by (simp add: r_def b_def)
  have st: "strip s = r" by (simp add: strip_def lstrip_def rstrip_def r_def t_def)
  have sa: "\<forall>c\<in>set a. isspace c" unfolding a_def by (auto dest: set_takeWhileD)
  have sb: "\<forall>c\<in>set b. isspace c" unfolding b_def by (auto dest: set_takeWhileD)
  have e: "\<not> isspace (hd r) \<and> \<not> isspace (last r)" if ne: "r \<noteq> []"
  proof -
    from ne have tne: "t \<noteq> []" using tt by auto
    then have "\<not> isspace (hd t)" unfolding t_def by (rule hd_dropWhile)
    moreover have "hd t = hd r" using tt ne by simp
    moreover have "dropWhile isspace (rev t) \<noteq> []" using ne by (simp add: r_def)
    then have "\<not> isspace (hd (dropWhile isspace (rev t)))" by (rule hd_dropWhile)
    then have "\<not> isspace (last r)" using ne by (simp add: r_def last_rev)
    ultimately show ?thesis by simp
  qed
  from s tt st sa sb e show ?thesis by (intro exI[of _ a] exI[of _ b]) auto
qed

lemma strip_strip: "strip (strip s) = strip s"
  using strip_decomp[of s] strip_unique[of "[]" "[]" "strip s"] by auto

lemma strip_pad:
  assumes "\<forall>c\<in>set a. isspace c" and "\<forall>c\<in>set b. isspace c"
  shows "strip (a @ s @ b) = strip s"
proof -
  obtain a' b' where s: "s = a' @ strip s @ b'" and a': "\<forall>c\<in>set a'. isspace c"
    and b': "\<forall>c\<in>set b'. isspace c"
    and t: "strip s = [] \<or> (\<not> isspace (hd (strip s)) \<and> \<not> isspace (last (strip s)))"
    using strip_decomp[of s] by blast
  have "a @ s @ b = (a @ a') @ strip s @ (b' @ b)" using s by (metis append.assoc)
  moreover have "strip ((a @ a') @ strip s @ (b' @ b)) = strip s"
    using assms a' b' t by (intro strip_unique) auto
  ultimately show ?thesis by (simp only:)
qed

lemma set_strip: "set (strip s) \<subseteq> set s"
proof -
  obtain a b where "s = a @ strip s @ b" using strip_decomp[of s] by blast
  then have "set s = set a \<union> set (strip s) \<union> set b" by (metis set_append Un_assoc)
  then show ?thesis by auto
qed

lemma strip_eq_Nil_iff: "strip w = [] \<longleftrightarrow> (\<forall>c\<in>set w. isspace c)"
proof
  assume e: "strip w = []"
  obtain a b where "w = a @ strip w @ b" "\<forall>c\<in>set a. isspace c" "\<forall>c\<in>set b. isspace c"
    using strip_decomp[of w] by blast
  with e have "w = a @ b" by simp
  with \<open>\<forall>c\<in>set a. isspace c\<close> \<open>\<forall>c\<in>set b. isspace c\<close> show "\<forall>c\<in>set w. isspace c"
    by (metis Un_iff set_append)
qed (rule strip_blank)

lemma split_on_nonempty: "split_on sep s \<noteq> []"
  by (induction s) (auto split: list.splits)

lemma split_on_no_sep: "sep \<notin> set x \<Longrightarrow> split_on sep x = [x]"
  by (induction x) auto

lemma split_on_append: "sep \<notin> set x \<Longrightarrow> split_on sep (x @ sep # y) = x # split_on sep y"
  by (induction x) auto

lemma split_on_snoc: "sep \<notin> set w \<Longrightarrow> split_on sep (init @ sep # w) = split_on sep init @ [w]"
proof (induction init)
  case Nil
  then show ?case by (simp add: split_on_no_sep)
next
  case (Cons c cs)
  then show ?case using split_on_nonempty[of sep cs] by (cases "split_on sep cs") auto
qed

lemma split_on_parts: "p \<in> set (split_on sep s) \<Longrightarrow> sep \<notin> set p"
proof (induction s arbitrary: p)
  case Nil
  then show ?case by simp
next
  case (Cons c cs)
  show ?case
  proof (cases "c = sep")
    case True
    with Cons show ?thesis by auto
  next
    case False
    obtain q qs where q: "split_on sep cs = q # qs"
      using split_on_nonempty[of sep cs] by (cases "split_on sep cs") auto
    with Cons.prems False have "p = c # q \<or> p \<in> set qs" by auto
    with Cons.IH[of q] Cons.IH[of p] q False show ?thesis by auto
  qed
qed


text \<open>Cells joined by \<open>" | "\<close> and split at the pipes again.\<close>

lemma split_join_BAR:
  assumes "cells \<noteq> []" and "\<forall>c\<in>set cells. PIPE \<notin> set c"
    and "\<forall>c\<in>set pre. isspace c" and "\<forall>c\<in>set post. isspace c"
  shows "map strip (split_on PIPE (pre @ join BAR cells @ post)) = map strip cells"
  using assms
proof (induction cells arbitrary: pre)
  case Nil
  then show ?case by simp
next
  case (Cons c cs)
  show ?case
  proof (cases cs)
    case Nil
    have "PIPE \<notin> set (pre @ c @ post)"
      using Cons.prems blank_no_pipe[of pre] blank_no_pipe[of post] by auto
    then have "split_on PIPE (pre @ c @ post) = [pre @ c @ post]" by (rule split_on_no_sep)
    with Nil Cons.prems show ?thesis by (simp add: strip_pad)
  next
    case c2: (Cons d ds)
    have np: "PIPE \<notin> set (pre @ c @ [SPACE])"
      using Cons.prems blank_no_pipe[of pre] blank_no_pipe[of "[SPACE]"] isspace_SPACE by auto
    have e: "pre @ join BAR (c # d # ds) @ post
               = (pre @ c @ [SPACE]) @ PIPE # ([SPACE] @ join BAR (d # ds) @ post)"
      by (simp add: BAR_def)
    have "map strip (split_on PIPE ([SPACE] @ join BAR cs @ post)) = map strip cs"
      using Cons.prems c2 isspace_SPACE by (intro Cons.IH) auto
    then have "map strip (split_on PIPE ([SPACE] @ join BAR (d # ds) @ post)) = map strip (d # ds)"
      unfolding c2 .
    moreover have "strip (pre @ c @ [SPACE]) = strip c"
      using Cons.prems isspace_SPACE by (intro strip_pad) auto
    ultimately show ?thesis
      unfolding c2 e split_on_append[OF np] by simp
  qed
qed

lemma nonblank_map_strip: "nonblank (map strip cells) = map strip (nonblank cells)"
  by (simp add: nonblank_def filter_map comp_def strip_strip)

lemma nonblank_append: "nonblank (xs @ ys) = nonblank xs @ nonblank ys"
  by (simp add: nonblank_def)

lemma nonblank_replicate_Nil: "nonblank (replicate k []) = []"
  by (simp add: nonblank_def strip_Nil)

lemma nonblank_butlast:
  "xs \<noteq> [] \<Longrightarrow> strip (last xs) = [] \<Longrightarrow> nonblank (butlast xs) = nonblank xs"
proof -
  assume "xs \<noteq> []" and b: "strip (last xs) = []"
  then have "xs = butlast xs @ [last xs]" by simp
  then have "nonblank xs = nonblank (butlast xs) @ nonblank [last xs]"
    by (metis nonblank_append)
  with b show ?thesis by (simp add: nonblank_def)
qed

text \<open>A line whose trimmed text starts (ends) with a pipe has only white space before
  its first (after its last) pipe.\<close>

lemma startswith_pipe_strip:
  assumes "startswith_pipe (strip line)"
  shows "\<exists>w rest. line = w @ PIPE # rest \<and> (\<forall>c\<in>set w. isspace c)"
proof -
  obtain a b where l: "line = a @ strip line @ b" and a: "\<forall>c\<in>set a. isspace c"
    using strip_decomp[of line] by blast
  from assms obtain r where "strip line = PIPE # r"
    by (auto simp: startswith_pipe_def split: list.splits)
  with l have "line = a @ PIPE # (r @ b)" by simp
  with a show ?thesis by blast
qed

lemma endswith_pipe_strip:
  assumes "endswith_pipe (strip line)"
  shows "\<exists>init w. line = init @ PIPE # w \<and> (\<forall>c\<in>set w. isspace c)"
proof -
  obtain a b where l: "line = a @ strip line @ b" and b: "\<forall>c\<in>set b. isspace c"
    using strip_decomp[of line] by blast
  from assms obtain r where "rev (strip line) = PIPE # r"
    by (auto simp: endswith_pipe_def split: list.splits)
  then have "strip line = rev r @ [PIPE]" by (metis rev.simps(2) rev_rev_ident)
  with l have "line = (a @ rev r) @ PIPE # b" by simp
  with b show ?thesis by blast
qed




subsection \<open>The separator pattern\<close>

lemma takeWhile_eq_replicate:
  "takeWhile (\<lambda>c. c = a) xs = replicate (length (takeWhile (\<lambda>c. c = a) xs)) a"
  by (induction xs) auto

lemma DASH_neq_COLON: "DASH \<noteq> COLON" "COLON \<noteq> DASH"
  by (simp_all add: DASH_def COLON_def)

lemma takeWhile_dashes:
  assumes "b = [] \<or> b = [COLON]"
  shows "takeWhile (\<lambda>c. c = DASH) (replicate n DASH @ b) = replicate n DASH"
    and "dropWhile (\<lambda>c. c = DASH) (replicate n DASH @ b) = b"
proof -
  have t: "takeWhile (\<lambda>c. c = DASH) (replicate n DASH @ b)
             = replicate n DASH @ takeWhile (\<lambda>c. c = DASH) b"
    by (rule takeWhile_append2) simp
  have d: "dropWhile (\<lambda>c. c = DASH) (replicate n DASH @ b) = dropWhile (\<lambda>c. c = DASH) b"
    by (rule dropWhile_append2) simp
  show "takeWhile (\<lambda>c. c = DASH) (replicate n DASH @ b) = replicate n DASH"
    unfolding t using assms DASH_neq_COLON by auto
  show "dropWhile (\<lambda>c. c = DASH) (replicate n DASH @ b) = b"
    unfolding d using assms DASH_neq_COLON by auto
qed

text \<open>The matcher accepts exactly the words of the pattern.\<close>

lemma sep_fullmatch_words: "sep_fullmatch s \<longleftrightarrow> sep_words s"
proof
  assume m: "sep_fullmatch s"
  define s1 where "s1 = (case s of [] \<Rightarrow> [] | c # r \<Rightarrow> if c = COLON then r else s)"
  define k where "k = length (takeWhile (\<lambda>c. c = DASH) s1)"
  define r where "r = dropWhile (\<lambda>c. c = DASH) s1"
  from m have k: "3 \<le> k" and r: "r = [] \<or> r = [COLON]"
    by (simp_all add: sep_fullmatch_def Let_def s1_def k_def r_def)
  have "s1 = takeWhile (\<lambda>c. c = DASH) s1 @ r" by (simp add: r_def)
  then have s1: "s1 = replicate k DASH @ r"
    using takeWhile_eq_replicate[of DASH s1] by (simp add: k_def)
  have "s = s1 \<or> s = COLON # s1"
    by (auto simp: s1_def split: list.splits)
  then have "s = [] @ replicate k DASH @ r \<or> s = [COLON] @ replicate k DASH @ r"
    using s1 by simp
  with k r show "sep_words s" unfolding sep_words_def by blast
next
  assume "sep_words s"
  then obtain n a b where n: "3 \<le> n" and a: "a = [] \<or> a = [COLON]"
    and b: "b = [] \<or> b = [COLON]" and s: "s = a @ replicate n DASH @ b"
    unfolding sep_words_def by blast
  from n obtain m where nm: "n = Suc m" by (cases n) auto
  have "(case s of [] \<Rightarrow> [] | c # r \<Rightarrow> if c = COLON then r else s) = replicate n DASH @ b"
    using a s nm DASH_neq_COLON by auto
  then show "sep_fullmatch s"
    using n b takeWhile_dashes[OF b, of n]
    by (simp only: sep_fullmatch_def Let_def length_replicate)
qed

lemma sep_words_chars: "sep_words s \<Longrightarrow> set s \<subseteq> {COLON, DASH} \<and> s \<noteq> []"
  unfolding sep_words_def by auto

lemma sep_words_strip:
  assumes "sep_words s"
  shows "strip s = s"
proof -
  from sep_words_chars[OF assms] have c: "set s \<subseteq> {COLON, DASH}" and ne: "s \<noteq> []" by auto
  have n: "\<not> isspace COLON" "\<not> isspace DASH" by (simp_all add: isspace_def COLON_def DASH_def)
  from ne have "hd s \<in> set s" "last s \<in> set s" by auto
  with c n have "\<not> isspace (hd s) \<and> \<not> isspace (last s)" by auto
  then show ?thesis using strip_unique[of "[]" "[]" s] by simp
qed

lemma sep_words_no_pipe: "sep_words s \<Longrightarrow> PIPE \<notin> set s"
  using sep_words_chars[of s] by (auto simp: PIPE_def COLON_def DASH_def)

text \<open>
  C5, as the specification states it, fails on a row of empty cells: the claim says
  such a row is not a separator row, and \<open>Grok3_round_5.is_separator_row\<close> returns
  \<open>True\<close> for it, since \<open>all\<close> of nothing is true.
\<close>

theorem Grok3_round_5_is_separator_row_all_empty_counterexample:
  "Grok3_round_5_is_separator_row [[], []] = True"
  by (simp add: Grok3_round_5_is_separator_row_def strip_def lstrip_def rstrip_def)

text \<open>
  C5, amended. \<open>Grok3_round_5.is_separator_row(cells)\<close> is true iff every cell that is
  not blank has its trimmed text in the pattern \<open>^:?-{3,}:?$\<close>; on trimmed cells, which
  is what \<open>parse_row\<close> produces, iff every non-empty cell is in the pattern. It is true
  for every row made of empty cells only, the row of no cells included.
\<close>

theorem Grok3_round_5_is_separator_row_iff:
  "(Grok3_round_5_is_separator_row cells \<longleftrightarrow>
      (\<forall>c\<in>set cells. strip c \<noteq> [] \<longrightarrow> sep_words (strip c)))
   \<and> ((\<forall>c\<in>set cells. strip c = c) \<longrightarrow>
        (Grok3_round_5_is_separator_row cells \<longleftrightarrow>
           (\<forall>c\<in>set cells. c \<noteq> [] \<longrightarrow> sep_words c)))
   \<and> Grok3_round_5_is_separator_row (replicate n [])"
proof -
  have a: "Grok3_round_5_is_separator_row cells \<longleftrightarrow>
      (\<forall>c\<in>set cells. strip c \<noteq> [] \<longrightarrow> sep_words (strip c))" for cells
    by (auto simp: Grok3_round_5_is_separator_row_def Grok3_round_5_is_separator_cell_def
        list_all_iff sep_fullmatch_words)
  have e: "strip [] = []" by (simp add: strip_def lstrip_def rstrip_def)
  have c: "Grok3_round_5_is_separator_row (replicate n [])"
    unfolding a using e by simp
  show ?thesis using a[of cells] c by auto
qed

theorem Grok3_round_5_is_separator_row_iff_witness:
  "strip (u ''---'') = u ''---'' \<and> strip [] = [] \<and> strip (u '':---:'') = u '':---:''
   \<and> sep_words (u ''---'') \<and> sep_words (u '':---:'')
   \<and> Grok3_round_5_is_separator_row [u ''---'', [], u '':---:'']
   \<and> \<not> Grok3_round_5_is_separator_row [u ''---'', u ''ab'']"
proof -
  have s: "strip (u ''---'') = u ''---''" "strip [] = []" "strip (u '':---:'') = u '':---:''"
    "strip (u ''ab'') = u ''ab''"
    by (simp_all add: strip_def lstrip_def rstrip_def u_def isspace_def)
  have m: "sep_words (u ''---'')" "sep_words (u '':---:'')" "\<not> sep_words (u ''ab'')"
    unfolding sep_fullmatch_words[symmetric]
    by (simp_all add: sep_fullmatch_def u_def COLON_def DASH_def)
  have n: "u ''---'' \<noteq> []" "u '':---:'' \<noteq> []" "u ''ab'' \<noteq> []" by (simp_all add: u_def)
  have "Grok3_round_5_is_separator_row [u ''---'', [], u '':---:'']"
    using Grok3_round_5_is_separator_row_iff[of "[u ''---'', [], u '':---:'']" 0] s m by simp
  moreover have "\<not> Grok3_round_5_is_separator_row [u ''---'', u ''ab'']"
    using Grok3_round_5_is_separator_row_iff[of "[u ''---'', u ''ab'']" 0] s m n by simp
  ultimately show ?thesis using s m by simp
qed

subsection \<open>Layout detection\<close>

lemma O1_pro_round_5_detect_loop_count:
  "O1_pro_round_5_detect_loop rows idx (a, b) =
     (a + length (filter (\<lambda>i. O1_pro_round_5_is_separator_row (rows ! i)) idx), b + length idx)"
  by (induction idx arbitrary: a b) auto

lemma length_odd_range: "length (odd_range n) = n div 2"
proof (induction n)
  case 0
  show ?case by (simp add: odd_range_def)
next
  case (Suc n)
  show ?case
  proof (cases "n = 0")
    case True
    then show ?thesis by (simp add: odd_range_def)
  next
    case False
    then have "[1..<Suc n] = [1..<n] @ [n]" by simp
    then have "odd_range (Suc n) = odd_range n @ (if odd n then [n] else [])"
      by (simp add: odd_range_def)
    with Suc show ?thesis by auto
  qed
qed

lemma set_odd_range: "set (odd_range n) = {i. i < n \<and> odd i}"
  by (auto simp: odd_range_def intro: Suc_leI elim: oddE)

lemma distinct_odd_range: "distinct (odd_range n)"
  by (simp add: odd_range_def)

text \<open>
  C6, as stated, fails on the rows of \<open>a|b\<close>, \<open>---|---\<close>, \<open>c|d|e\<close>: an invalid block
  with one separator row. The stated rule (at least two separator rows, half of them
  at odd indices) says standard; \<open>_detect_repeated_separators\<close> says repeated, and the
  repaired block ends with a separator row after \<open>c | d | e\<close>.
\<close>

theorem O1_pro_round_5_detect_repeated_separators_counterexample:
  "O1_pro_round_5_detect_repeated_separators
     (map O1_pro_round_5_parse_row [u ''a|b'', u ''---|---'', u ''c|d|e''])
   \<and> \<not> spec_repeated_layout (map O1_pro_round_5_parse_row [u ''a|b'', u ''---|---'', u ''c|d|e''])
   \<and> \<not> O1_pro_round_5_is_valid_table [u ''a|b'', u ''---|---'', u ''c|d|e'']
   \<and> O1_pro_round_5_fix_invalid_markdown_tables (u ''a|b\<newline>---|---\<newline>c|d|e'')
       = Inr (u ''a | b | \<newline>--- | --- | ---\<newline>c | d | e\<newline>--- | --- | ---'')"
  by (simp add: O1_pro_round_5_defs spec_repeated_layout_def splitlines.simps str_defs Let_def)

text \<open>
  C6, amended. \<open>O1_pro_round_5\<close> classifies the layout as repeated iff the block has at
  least three rows and at least half of the rows at odd indices are separator rows
  (the number of odd indices below \<open>n\<close> is \<open>n div 2\<close>); otherwise as standard.
\<close>

theorem O1_pro_round_5_detect_repeated_separators_iff:
  "O1_pro_round_5_detect_repeated_separators rows \<longleftrightarrow>
     3 \<le> length rows \<and>
     length rows div 2
       \<le> 2 * card {i. i < length rows \<and> odd i \<and> O1_pro_round_5_is_separator_row (rows ! i)}"
proof -
  let ?P = "\<lambda>i. O1_pro_round_5_is_separator_row (rows ! i)"
  have "distinct (filter ?P (odd_range (length rows)))"
    using distinct_odd_range by (rule distinct_filter)
  then have "card (set (filter ?P (odd_range (length rows))))
               = length (filter ?P (odd_range (length rows)))"
    by (rule distinct_card)
  moreover have "set (filter ?P (odd_range (length rows)))
                   = {i. i < length rows \<and> odd i \<and> ?P i}"
    by (auto simp: set_odd_range)
  ultimately have c: "length (filter ?P (odd_range (length rows)))
                       = card {i. i < length rows \<and> odd i \<and> ?P i}"
    by simp
  show ?thesis
    unfolding O1_pro_round_5_detect_repeated_separators_def O1_pro_round_5_detect_loop_count
    using c by (auto simp: length_odd_range)
qed

subsection \<open>Scenario B and the layout of a repaired block\<close>

text \<open>
  The loop of the repeated layout, in closed form: every row from index \<open>i\<close> on that
  is not a separator row is emitted, followed by a separator line.
\<close>

lemma O1_pro_round_5_repeated_loop_result:
  "O1_pro_round_5_repeated_loop rows style m i fixed
     = fixed @
       concat (map (\<lambda>i. [O1_pro_round_5_rebuild_row (rows ! i) style,
                          O1_pro_round_5_rebuild_row (replicate m SEP3) style])
                 (filter (\<lambda>i. \<not> O1_pro_round_5_is_separator_row (rows ! i)) [i..<length rows]))"
proof (induction rows style m i fixed rule: O1_pro_round_5_repeated_loop.induct)
  case (1 rows style m i fixed)
  show ?case
  proof (cases "i < length rows")
    case False
    then show ?thesis by (subst O1_pro_round_5_repeated_loop.simps) simp
  next
    case True
    have u: "[i..<length rows] = i # [i + 1..<length rows]"
      using True by (simp add: upt_conv_Cons)
    show ?thesis
    proof (cases "O1_pro_round_5_is_separator_row (rows ! i)")
      case f: True
      from "1.IH"(1)[OF True f] True f u
      show ?thesis by (subst O1_pro_round_5_repeated_loop.simps) simp
    next
      case f: False
      from "1.IH"(2)[OF True f] True f u
      show ?thesis by (subst O1_pro_round_5_repeated_loop.simps) simp
    qed
  qed
qed

lemma O1_pro_round_5_normalize_row_pad:
  "length r \<le> m \<Longrightarrow> O1_pro_round_5_normalize_row r (int m) = r @ replicate (m - length r) []"
  by (simp add: O1_pro_round_5_normalize_row_def nat_diff_distrib' of_nat_diff)

lemma O1_pro_round_5_is_separator_row_pad:
  "O1_pro_round_5_is_separator_row (r @ replicate k []) = O1_pro_round_5_is_separator_row r"
  by (simp add: O1_pro_round_5_is_separator_row_def strip_Nil)

lemma O1_pro_round_5_fix_invalid_table_result:
  assumes ne: "filter has_pipe lines \<noteq> []"
  defines "rows0 \<equiv> map O1_pro_round_5_parse_row (filter has_pipe lines)"
  defines "m \<equiv> Max (length ` set rows0)"
  defines "style \<equiv> (startswith_pipe (strip (hd lines)), endswith_pipe (strip (hd lines)))"
  defines "S \<equiv> O1_pro_round_5_rebuild_row (replicate m SEP3) style"
  defines "R \<equiv> (\<lambda>r. O1_pro_round_5_rebuild_row (O1_pro_round_5_normalize_row r (int m)) style)"
  defines "data \<equiv> filter (\<lambda>r. \<not> O1_pro_round_5_is_separator_row r) (tl rows0)"
  shows "O1_pro_round_5_fix_invalid_table lines =
           (if O1_pro_round_5_detect_repeated_separators rows0
            then Inr (R (hd rows0) # S # concat (map (\<lambda>r. [R r, S]) data))
            else Inr (R (hd rows0) # S # map R data))"
proof -
  define N where "N = (\<lambda>r. O1_pro_round_5_normalize_row r (int m))"
  define B where "B = (\<lambda>r. O1_pro_round_5_rebuild_row r style)"
  have r0: "rows0 \<noteq> []" using ne by (simp add: rows0_def)
  have l0: "lines \<noteq> []" using ne by auto
  have g0: "get lines 0 = Inr (hd lines)" using l0 by (simp add: get_def hd_conv_nth)
  have ml: "max_len rows0 = Inr m" using r0 by (simp add: max_len_Max m_def)
  have g1: "get (map N rows0) 0 = Inr (N (hd rows0))"
    using r0 by (simp add: get_def hd_conv_nth)
  have le: "length r \<le> m" if "r \<in> set rows0" for r
    using that by (simp add: m_def)
  have sep: "O1_pro_round_5_is_separator_row (N r) = O1_pro_round_5_is_separator_row r"
    if "r \<in> set rows0" for r
    using le[OF that]
    by (simp add: N_def O1_pro_round_5_normalize_row_pad O1_pro_round_5_is_separator_row_pad)
  have tl_sub: "set (tl rows0) \<subseteq> set rows0" using r0 by (cases rows0) auto
  have f: "filter (\<lambda>r. \<not> O1_pro_round_5_is_separator_row r) (map N (tl rows0)) = map N data"
  proof -
    have "filter (\<lambda>r. \<not> O1_pro_round_5_is_separator_row r) (map N (tl rows0))
            = map N (filter (\<lambda>r. \<not> O1_pro_round_5_is_separator_row (N r)) (tl rows0))"
      by (simp add: filter_map comp_def)
    also have "filter (\<lambda>r. \<not> O1_pro_round_5_is_separator_row (N r)) (tl rows0) = data"
      unfolding data_def using tl_sub sep by (intro filter_cong) auto
    finally show ?thesis .
  qed
  have d1: "drop (Suc 0) (map N rows0) = map N (tl rows0)"
    by (simp add: drop_Suc map_tl)
  have RB: "R = (\<lambda>r. B (N r))" by (simp add: R_def B_def N_def)
  have std: "map B (filter (\<lambda>r. \<not> O1_pro_round_5_is_separator_row r)
                      (slice_from (map N rows0) 1)) = map R data"
    using f d1 by (simp add: slice_from_def RB)
  have rep: "O1_pro_round_5_repeated_loop (map N rows0) style m 1 [R (hd rows0), S]
               = R (hd rows0) # S # concat (map (\<lambda>r. [R r, S]) data)"
  proof -
    have "map (\<lambda>i. [B (map N rows0 ! i), S])
                 (filter (\<lambda>i. \<not> O1_pro_round_5_is_separator_row (map N rows0 ! i))
                    [1..<length (map N rows0)])
          = map (\<lambda>r. [B r, S])
              (filter (\<lambda>r. \<not> O1_pro_round_5_is_separator_row r) (drop 1 (map N rows0)))"
      by (rule index_filter_as_rows)
    also have "\<dots> = map (\<lambda>r. [R r, S]) data" using f d1 by (simp add: RB comp_def)
    finally have e: "map (\<lambda>i. [B (map N rows0 ! i), S])
                 (filter (\<lambda>i. \<not> O1_pro_round_5_is_separator_row (map N rows0 ! i))
                    [1..<length (map N rows0)]) = map (\<lambda>r. [R r, S]) data" .
    have "O1_pro_round_5_repeated_loop (map N rows0) style m 1 [R (hd rows0), S]
            = [R (hd rows0), S] @
              concat (map (\<lambda>i. [B (map N rows0 ! i), S])
                   (filter (\<lambda>i. \<not> O1_pro_round_5_is_separator_row (map N rows0 ! i))
                      [1..<length (map N rows0)]))"
      unfolding O1_pro_round_5_repeated_loop_result B_def S_def ..
    also have "\<dots> = R (hd rows0) # S # concat (map (\<lambda>r. [R r, S]) data)"
      unfolding e by simp
    finally show ?thesis .
  qed
  have u: "O1_pro_round_5_fix_invalid_table lines =
             (if O1_pro_round_5_detect_repeated_separators rows0
              then Inr (O1_pro_round_5_repeated_loop (map N rows0) style m 1
                          [B (N (hd rows0)), B (replicate m SEP3)])
              else Inr ([B (N (hd rows0)), B (replicate m SEP3)] @
                        map B (filter (\<lambda>r. \<not> O1_pro_round_5_is_separator_row r)
                                 (slice_from (map N rows0) 1))))"
    using r0 g0 ml g1
    unfolding O1_pro_round_5_fix_invalid_table_def Let_def rows0_def[symmetric] N_def B_def
    by (simp add: style_def)
  show ?thesis
    unfolding u using rep std by (simp add: RB S_def B_def)
qed

text \<open>
  C8, as stated, fails: on the six-line input nothing is detected. The block passes
  \<open>_is_valid_table\<close> (its second line is a separator row and all six rows have two
  cells), so \<open>_process_table_block\<close> returns the original lines and neither
  \<open>_detect_repeated_separators\<close> nor the repair runs. Had the repair run, the lines
  would have been rewritten as \<open>h1 | h2\<close>, \<open>--- | ---\<close>, \<open>d1 | d2\<close>, ...; the output
  is the input, character for character.
\<close>

theorem O1_pro_round_5_scenario_B_counterexample:
  "O1_pro_round_5_is_valid_table
     (O1_pro_round_5_merge_continuation_lines
        [u ''h1|h2'', u ''---|---'', u ''d1|d2'', u ''---|---'', u ''e1|e2'', u ''---|---''])
   \<and> O1_pro_round_5_process_table_block
       [u ''h1|h2'', u ''---|---'', u ''d1|d2'', u ''---|---'', u ''e1|e2'', u ''---|---'']
     = Inr [u ''h1|h2'', u ''---|---'', u ''d1|d2'', u ''---|---'', u ''e1|e2'', u ''---|---'']
   \<and> O1_pro_round_5_fix_invalid_table
       (O1_pro_round_5_merge_continuation_lines
          [u ''h1|h2'', u ''---|---'', u ''d1|d2'', u ''---|---'', u ''e1|e2'', u ''---|---''])
     = Inr [u ''h1 | h2'', u ''--- | ---'', u ''d1 | d2'', u ''--- | ---'', u ''e1 | e2'',
            u ''--- | ---'']"
  by (simp add: O1_pro_round_5_defs str_defs Let_def)

text \<open>
  C8, amended. \<open>_process_table_block\<close> returns a block whose merged lines form a valid
  table as it is, without looking at the layout; Scenario B is such a block, so its
  output is its input (which has one separator row after each data row). Only for an
  invalid block is the layout detected: the output is then the padded header, one
  separator row of \<open>---\<close> cells, and each row that is not a separator row, in order and
  padded to the widest row; in the repeated layout each of these rows is followed by
  exactly one separator row, in the standard layout by none. The three inputs are
  Scenario B, Scenario B with a third cell in \<open>d1|d2\<close> (invalid, repeated), and a block
  with a single separator row at index 2 (invalid, standard).
\<close>

theorem O1_pro_round_5_process_table_block_layout:
  "(let merged = O1_pro_round_5_merge_continuation_lines block;
        rows0 = map O1_pro_round_5_parse_row (filter has_pipe merged);
        m = Max (length ` set rows0);
        style = (startswith_pipe (strip (hd merged)), endswith_pipe (strip (hd merged)));
        S = O1_pro_round_5_rebuild_row (replicate m SEP3) style;
        R = (\<lambda>r. O1_pro_round_5_rebuild_row (O1_pro_round_5_normalize_row r (int m)) style);
        data = filter (\<lambda>r. \<not> O1_pro_round_5_is_separator_row r) (tl rows0)
    in O1_pro_round_5_process_table_block block =
         (if O1_pro_round_5_is_valid_table merged then Inr block
          else if rows0 = [] then Inr merged
          else if O1_pro_round_5_detect_repeated_separators rows0
          then Inr (R (hd rows0) # S # concat (map (\<lambda>r. [R r, S]) data))
          else Inr (R (hd rows0) # S # map R data)))
   \<and> O1_pro_round_5_fix_invalid_markdown_tables
       (u ''h1|h2\<newline>---|---\<newline>d1|d2\<newline>---|---\<newline>e1|e2\<newline>---|---'')
     = Inr (u ''h1|h2\<newline>---|---\<newline>d1|d2\<newline>---|---\<newline>e1|e2\<newline>---|---'')
   \<and> O1_pro_round_5_fix_invalid_markdown_tables
       (u ''h1|h2\<newline>---|---\<newline>d1|d2|x\<newline>---|---\<newline>e1|e2\<newline>---|---'')
     = Inr (u ''h1 | h2 | \<newline>--- | --- | ---\<newline>d1 | d2 | x\<newline>--- | --- | ---\<newline>e1 | e2 | \<newline>--- | --- | ---'')
   \<and> O1_pro_round_5_fix_invalid_markdown_tables
       (u ''h1|h2\<newline>d1|d2\<newline>---|---\<newline>e1|e2|x'')
     = Inr (u ''h1 | h2 | \<newline>--- | --- | ---\<newline>d1 | d2 | \<newline>e1 | e2 | x'')"
proof -
  define merged where "merged = O1_pro_round_5_merge_continuation_lines block"
  have a: "O1_pro_round_5_process_table_block block =
         (if O1_pro_round_5_is_valid_table merged then Inr block
          else O1_pro_round_5_fix_invalid_table merged)"
    by (simp add: O1_pro_round_5_process_table_block_def merged_def)
  have b: "O1_pro_round_5_fix_invalid_table merged = Inr merged"
    if "map O1_pro_round_5_parse_row (filter has_pipe merged) = []"
    using that by (simp add: O1_pro_round_5_fix_invalid_table_def)
  have c: "map O1_pro_round_5_parse_row (filter has_pipe merged) \<noteq> [] \<Longrightarrow>
           filter has_pipe merged \<noteq> []" by simp
  have g: "(let rows0 = map O1_pro_round_5_parse_row (filter has_pipe merged);
        m = Max (length ` set rows0);
        style = (startswith_pipe (strip (hd merged)), endswith_pipe (strip (hd merged)));
        S = O1_pro_round_5_rebuild_row (replicate m SEP3) style;
        R = (\<lambda>r. O1_pro_round_5_rebuild_row (O1_pro_round_5_normalize_row r (int m)) style);
        data = filter (\<lambda>r. \<not> O1_pro_round_5_is_separator_row r) (tl rows0)
    in O1_pro_round_5_process_table_block block =
         (if O1_pro_round_5_is_valid_table merged then Inr block
          else if rows0 = [] then Inr merged
          else if O1_pro_round_5_detect_repeated_separators rows0
          then Inr (R (hd rows0) # S # concat (map (\<lambda>r. [R r, S]) data))
          else Inr (R (hd rows0) # S # map R data)))"
    unfolding Let_def a
    using b O1_pro_round_5_fix_invalid_table_result[OF c] by simp
  have e1: "O1_pro_round_5_fix_invalid_markdown_tables
       (u ''h1|h2\<newline>---|---\<newline>d1|d2\<newline>---|---\<newline>e1|e2\<newline>---|---'')
     = Inr (u ''h1|h2\<newline>---|---\<newline>d1|d2\<newline>---|---\<newline>e1|e2\<newline>---|---'')"
    by (simp add: O1_pro_round_5_defs splitlines.simps str_defs Let_def)
  have e2: "O1_pro_round_5_fix_invalid_markdown_tables
       (u ''h1|h2\<newline>---|---\<newline>d1|d2|x\<newline>---|---\<newline>e1|e2\<newline>---|---'')
     = Inr (u ''h1 | h2 | \<newline>--- | --- | ---\<newline>d1 | d2 | x\<newline>--- | --- | ---\<newline>e1 | e2 | \<newline>--- | --- | ---'')"
    by (simp add: O1_pro_round_5_defs splitlines.simps str_defs Let_def)
  have e3: "O1_pro_round_5_fix_invalid_markdown_tables
       (u ''h1|h2\<newline>d1|d2\<newline>---|---\<newline>e1|e2|x'')
     = Inr (u ''h1 | h2 | \<newline>--- | --- | ---\<newline>d1 | d2 | \<newline>e1 | e2 | x'')"
    by (simp add: O1_pro_round_5_defs splitlines.simps str_defs Let_def)
  show ?thesis
    unfolding Let_def using g[unfolded merged_def Let_def] e1 e2 e3 by (intro conjI)
qed

subsection \<open>Valid blocks are passed through\<close>












lemma skip_break_not_CR: "c \<noteq> CR \<Longrightarrow> skip_break (c # r) = r"
  by (cases r) auto

lemma splitlines_line:
  assumes "\<forall>c\<in>set l. \<not> islinebreak c"
  shows "splitlines (l @ LF # rest) = l # splitlines rest"
proof -
  have lb: "islinebreak LF" by (simp add: islinebreak_def LF_def)
  have t: "takeWhile (\<lambda>c. \<not> islinebreak c) (l @ LF # rest) = l"
    using assms lb by (simp add: takeWhile_append2)
  have d: "dropWhile (\<lambda>c. \<not> islinebreak c) (l @ LF # rest) = LF # rest"
    using assms lb by (simp add: dropWhile_append2)
  have "LF \<noteq> CR" by (simp add: LF_def CR_def)
  then have s: "skip_break (LF # rest) = rest" by (rule skip_break_not_CR)
  show ?thesis
    by (subst splitlines.simps) (simp add: t d s)
qed

lemma splitlines_last:
  assumes "\<forall>c\<in>set l. \<not> islinebreak c" and "l \<noteq> []"
  shows "splitlines l = [l]"
proof -
  have t: "takeWhile (\<lambda>c. \<not> islinebreak c) l = l" using assms by simp
  have d: "dropWhile (\<lambda>c. \<not> islinebreak c) l = []" using assms by simp
  have e: "splitlines [] = []" by (simp add: splitlines.simps)
  show ?thesis
    by (subst splitlines.simps) (simp add: t d e assms)
qed








subsection \<open>Inputs without tables, and idempotence\<close>

lemma set_skip_break: "set (skip_break s) \<subseteq> set s"
  by (induction s rule: skip_break.induct) auto

lemma splitlines_set: "l \<in> set (splitlines s) \<Longrightarrow> set l \<subseteq> set s"
proof (induction s rule: splitlines.induct)
  case (1 s)
  show ?case
  proof (cases "s = []")
    case True
    with "1.prems" show ?thesis by (simp add: splitlines.simps)
  next
    case False
    let ?d = "dropWhile (\<lambda>c. \<not> islinebreak c) s"
    from "1.prems" False
    have "l = takeWhile (\<lambda>c. \<not> islinebreak c) s \<or> l \<in> set (splitlines (skip_break ?d))"
      by (subst (asm) splitlines.simps) simp
    then show ?thesis
    proof
      assume "l = takeWhile (\<lambda>c. \<not> islinebreak c) s"
      then show ?thesis by (auto dest: set_takeWhileD)
    next
      assume "l \<in> set (splitlines (skip_break ?d))"
      from "1.IH"[OF False this] have "set l \<subseteq> set (skip_break ?d)" .
      also have "\<dots> \<subseteq> set ?d" by (rule set_skip_break)
      also have "\<dots> \<subseteq> set s" by (auto dest: set_dropWhileD)
      finally show ?thesis .
    qed
  qed
qed

lemma splitlines_no_break: "l \<in> set (splitlines s) \<Longrightarrow> \<forall>c\<in>set l. \<not> islinebreak c"
proof (induction s rule: splitlines.induct)
  case (1 s)
  show ?case
  proof (cases "s = []")
    case True
    with "1.prems" show ?thesis by (simp add: splitlines.simps)
  next
    case False
    let ?d = "dropWhile (\<lambda>c. \<not> islinebreak c) s"
    from "1.prems" False
    have "l = takeWhile (\<lambda>c. \<not> islinebreak c) s \<or> l \<in> set (splitlines (skip_break ?d))"
      by (subst (asm) splitlines.simps) simp
    then show ?thesis
    proof
      assume "l = takeWhile (\<lambda>c. \<not> islinebreak c) s"
      then show ?thesis by (auto dest: set_takeWhileD)
    next
      assume "l \<in> set (splitlines (skip_break ?d))"
      from "1.IH"[OF False this] show ?thesis .
    qed
  qed
qed

lemma Claude37_round_5_scan_no_pipe:
  "\<forall>l\<in>set ls. \<not> has_pipe l \<Longrightarrow> Claude37_round_5_scan out [] False ls = Inr (out @ ls)"
  by (induction ls arbitrary: out) auto

lemma Claude37_round_5_no_pipe:
  assumes "\<not> has_pipe x"
  shows "Claude37_round_5_fix_invalid_markdown_tables x = Inr (join [LF] (splitlines x))"
proof -
  have "\<forall>l\<in>set (splitlines x). \<not> has_pipe l"
    using assms splitlines_set[of _ x] by (auto simp: has_pipe_def)
  then show ?thesis
    by (simp add: Claude37_round_5_fix_invalid_markdown_tables_def Claude37_round_5_scan_no_pipe)
qed

lemma set_join: "set (join sep ls) \<subseteq> set sep \<union> \<Union> (set ` set ls)"
  by (induction sep ls rule: join.induct) auto

lemma has_pipe_join_LF: "\<forall>l\<in>set ls. \<not> has_pipe l \<Longrightarrow> \<not> has_pipe (join [LF] ls)"
  using set_join[of "[LF]" ls] by (auto simp: has_pipe_def PIPE_def LF_def)

lemma splitlines_Nil: "splitlines [] = []"
  by (simp add: splitlines.simps)

lemma splitlines_line_crlf:
  assumes "\<forall>c\<in>set l. \<not> islinebreak c"
  shows "splitlines (l @ CR # LF # rest) = l # splitlines rest"
proof -
  have lb: "islinebreak CR" by (simp add: islinebreak_def CR_def)
  have t: "takeWhile (\<lambda>c. \<not> islinebreak c) (l @ CR # LF # rest) = l"
    using assms lb by (simp add: takeWhile_append2)
  have d: "dropWhile (\<lambda>c. \<not> islinebreak c) (l @ CR # LF # rest) = CR # LF # rest"
    using assms lb by (simp add: dropWhile_append2)
  show ?thesis
    by (subst splitlines.simps) (simp add: t d)
qed

lemma splitlines_join_crlf:
  "\<forall>l\<in>set ls. \<forall>c\<in>set l. \<not> islinebreak c \<Longrightarrow> ls = [] \<or> last ls \<noteq> [] \<Longrightarrow>
   splitlines (join [CR, LF] ls) = ls"
proof (induction "[CR, LF]" ls rule: join.induct)
  case 1
  show ?case by (simp add: splitlines_Nil)
next
  case (2 x)
  then show ?case by (simp add: splitlines_last)
next
  case (3 x y ys)
  then show ?case by (simp add: splitlines_line_crlf)
qed

lemma splitlines_join_trailing:
  "\<forall>l\<in>set ls. \<forall>c\<in>set l. \<not> islinebreak c \<Longrightarrow> ls \<noteq> [] \<Longrightarrow>
   splitlines (join [LF] ls @ [LF]) = ls"
proof (induction "[LF]" ls rule: join.induct)
  case 1
  then show ?case by simp
next
  case (2 x)
  then show ?case using splitlines_line[of x "[]"] by (simp add: splitlines_Nil)
next
  case (3 x y ys)
  then show ?case using splitlines_line[of x "join [LF] (y # ys) @ [LF]"] by simp
qed



lemma splitlines_join_trailing_crlf:
  "\<forall>l\<in>set ls. \<forall>c\<in>set l. \<not> islinebreak c \<Longrightarrow> ls \<noteq> [] \<Longrightarrow>
   splitlines (join [LF] ls @ [CR, LF]) = ls"
proof (induction "[LF]" ls rule: join.induct)
  case 1
  then show ?case by simp
next
  case (2 x)
  then show ?case using splitlines_line_crlf[of x "[]"] by (simp add: splitlines_Nil)
next
  case (3 x y ys)
  then show ?case using splitlines_line[of x "join [LF] (y # ys) @ [CR, LF]"] by simp
qed

lemma splitlines_eq_Nil: "splitlines s = [] \<longleftrightarrow> s = []"
  by (subst splitlines.simps) simp

lemma join_Cons_nonempty: "ys \<noteq> [] \<Longrightarrow> join sep (x # ys) = x @ sep @ join sep ys"
  by (cases ys) auto

lemma join_splitlines_LF_only:
  "\<forall>c\<in>set x. islinebreak c \<longrightarrow> c = LF \<Longrightarrow> x = [] \<or> last x \<noteq> LF \<Longrightarrow>
   join [LF] (splitlines x) = x"
proof (induction x rule: splitlines.induct)
  case (1 s)
  show ?case
  proof (cases "s = []")
    case True
    then show ?thesis by (simp add: splitlines_Nil)
  next
    case False
    let ?t = "takeWhile (\<lambda>c. \<not> islinebreak c) s"
    let ?d = "dropWhile (\<lambda>c. \<not> islinebreak c) s"
    have s: "s = ?t @ ?d" by simp
    have sl: "splitlines s = ?t # splitlines (skip_break ?d)"
      using False by (subst splitlines.simps) simp
    show ?thesis
    proof (cases ?d)
      case Nil
      then have "?t = s" using s by (metis append_Nil2)
      with sl Nil show ?thesis by (simp add: splitlines_Nil)
    next
      case (Cons c r)
      then have "islinebreak c" using hd_dropWhile[of "\<lambda>c. \<not> islinebreak c" s] by auto
      moreover have "c \<in> set s" using Cons by (metis list.set_intros(1) set_dropWhileD)
      ultimately have c: "c = LF" using "1.prems"(1) by blast
      have "LF \<noteq> CR" by (simp add: LF_def CR_def)
      then have sk: "skip_break ?d = r" using Cons c by (simp add: skip_break_not_CR)
      have s': "s = ?t @ LF # r" using s Cons c by simp
      have rne: "r \<noteq> []"
      proof
        assume "r = []"
        with s' have "last s = LF" by (metis last_snoc append_Cons append_Nil append_assoc)
        with "1.prems"(2) False show False by simp
      qed
      have "set r \<subseteq> set s" using s' by (metis set_append set_subset_Cons le_supI2)
      then have p1: "\<forall>c\<in>set r. islinebreak c \<longrightarrow> c = LF" using "1.prems"(1) by blast
      have "last s = last r" using s' rne by (metis last_appendR last_ConsR list.distinct(1))
      with "1.prems"(2) False have p2: "r = [] \<or> last r \<noteq> LF" by simp
      have ih: "join [LF] (splitlines r) = r"
        using "1.IH"[OF False] p1 p2 sk by simp
      have "splitlines r \<noteq> []" using rne by (simp add: splitlines_eq_Nil)
      then have "join [LF] (?t # splitlines r) = ?t @ [LF] @ join [LF] (splitlines r)"
        by (rule join_Cons_nonempty)
      with sl sk ih s' show ?thesis by simp
    qed
  qed
qed

lemma LF_only_lines:
  assumes "\<forall>c\<in>set x. islinebreak c \<longrightarrow> c = LF" and "x = [] \<or> last x \<noteq> LF"
    and "\<not> has_pipe x"
  shows "Claude37_round_5_fix_invalid_markdown_tables x = Inr x"
    and "Claude37_round_5_fix_invalid_markdown_tables (x @ [LF]) = Inr x"
    and "Claude37_round_5_fix_invalid_markdown_tables (x @ [CR, LF]) = Inr x"
proof -
  have j: "join [LF] (splitlines x) = x" using assms(1,2) by (rule join_splitlines_LF_only)
  show "Claude37_round_5_fix_invalid_markdown_tables x = Inr x"
    using Claude37_round_5_no_pipe[OF assms(3)] j by simp
  have np1: "\<not> has_pipe (x @ [LF])" using assms(3) by (simp add: has_pipe_def PIPE_def LF_def)
  have np2: "\<not> has_pipe (x @ [CR, LF])"
    using assms(3) by (simp add: has_pipe_def PIPE_def LF_def CR_def)
  have nb: "\<forall>l\<in>set (splitlines x). \<forall>c\<in>set l. \<not> islinebreak c"
    using splitlines_no_break by blast
  have "splitlines (x @ [LF]) = (if x = [] then [[]] else splitlines x)
        \<and> splitlines (x @ [CR, LF]) = (if x = [] then [[]] else splitlines x)"
  proof (cases "x = []")
    case True
    have "splitlines ([] @ LF # []) = [] # splitlines []" by (rule splitlines_line) simp
    moreover have "splitlines ([] @ CR # LF # []) = [] # splitlines []"
      by (rule splitlines_line_crlf) simp
    ultimately show ?thesis using True by (simp add: splitlines_Nil)
  next
    case False
    then have ne: "splitlines x \<noteq> []" by (simp add: splitlines_eq_Nil)
    from splitlines_join_trailing[OF nb ne] splitlines_join_trailing_crlf[OF nb ne] j False
    show ?thesis by simp
  qed
  then have "join [LF] (splitlines (x @ [LF])) = x \<and> join [LF] (splitlines (x @ [CR, LF])) = x"
    using j by (cases "x = []") simp_all
  then show "Claude37_round_5_fix_invalid_markdown_tables (x @ [LF]) = Inr x"
    and "Claude37_round_5_fix_invalid_markdown_tables (x @ [CR, LF]) = Inr x"
    using Claude37_round_5_no_pipe[OF np1] Claude37_round_5_no_pipe[OF np2] by simp_all
qed

lemma has_pipe_join_CRLF: "\<forall>l\<in>set ls. \<not> has_pipe l \<Longrightarrow> \<not> has_pipe (join [CR, LF] ls)"
  using set_join[of "[CR, LF]" ls] by (auto simp: has_pipe_def PIPE_def LF_def CR_def)

text \<open>
  C10. On an input with no pipe character \<open>Claude37_round_5.fix_invalid_markdown_tables\<close>
  returns the lines of \<open>splitlines\<close> joined by \<open>\n\<close>. So an input whose only line
  boundaries are \<open>\n\<close> and that does not end in one is returned unchanged; one
  trailing \<open>\n\<close> or \<open>\r\n\<close> after such an input is removed; and lines joined by
  \<open>\r\n\<close> come back joined by \<open>\n\<close>.
\<close>

theorem Claude37_round_5_no_pipe_lines:
  "(\<not> has_pipe x \<longrightarrow>
      Claude37_round_5_fix_invalid_markdown_tables x = Inr (join [LF] (splitlines x)))
   \<and> (\<not> has_pipe x \<and> (\<forall>c\<in>set x. islinebreak c \<longrightarrow> c = LF) \<and> (x = [] \<or> last x \<noteq> LF) \<longrightarrow>
        Claude37_round_5_fix_invalid_markdown_tables x = Inr x
        \<and> Claude37_round_5_fix_invalid_markdown_tables (x @ [LF]) = Inr x
        \<and> Claude37_round_5_fix_invalid_markdown_tables (x @ [CR, LF]) = Inr x)
   \<and> ((\<forall>l\<in>set ls. \<not> has_pipe l \<and> (\<forall>c\<in>set l. \<not> islinebreak c)) \<and> (ls = [] \<or> last ls \<noteq> []) \<longrightarrow>
        Claude37_round_5_fix_invalid_markdown_tables (join [CR, LF] ls) = Inr (join [LF] ls))"
proof (intro conjI impI)
  assume "\<not> has_pipe x"
  then show "Claude37_round_5_fix_invalid_markdown_tables x = Inr (join [LF] (splitlines x))"
    by (rule Claude37_round_5_no_pipe)
next
  assume a: "\<not> has_pipe x \<and> (\<forall>c\<in>set x. islinebreak c \<longrightarrow> c = LF) \<and> (x = [] \<or> last x \<noteq> LF)"
  then show "Claude37_round_5_fix_invalid_markdown_tables x = Inr x"
    using LF_only_lines(1) by blast
  from a show "Claude37_round_5_fix_invalid_markdown_tables (x @ [LF]) = Inr x"
    using LF_only_lines(2) by blast
  from a show "Claude37_round_5_fix_invalid_markdown_tables (x @ [CR, LF]) = Inr x"
    using LF_only_lines(3) by blast
next
  assume a: "(\<forall>l\<in>set ls. \<not> has_pipe l \<and> (\<forall>c\<in>set l. \<not> islinebreak c)) \<and> (ls = [] \<or> last ls \<noteq> [])"
  then have "\<not> has_pipe (join [CR, LF] ls)" using has_pipe_join_CRLF by blast
  moreover from a have "splitlines (join [CR, LF] ls) = ls" using splitlines_join_crlf by blast
  ultimately show "Claude37_round_5_fix_invalid_markdown_tables (join [CR, LF] ls) = Inr (join [LF] ls)"
    using Claude37_round_5_no_pipe by simp
qed










































theorem Claude37_round_5_no_pipe_lines_witness:
  "\<not> has_pipe (u ''hello\<newline>world'')
   \<and> Claude37_round_5_fix_invalid_markdown_tables (u ''hello\<newline>world'')
       = Inr (u ''hello\<newline>world'')
   \<and> Claude37_round_5_fix_invalid_markdown_tables (u ''hello\<newline>world\<newline>'')
       = Inr (u ''hello\<newline>world'')
   \<and> Claude37_round_5_fix_invalid_markdown_tables (u ''hello'' @ [CR, LF] @ u ''world'')
       = Inr (u ''hello\<newline>world'')"
proof -
  let ?x = "u ''hello\<newline>world''"
  let ?ls = "[u ''hello'', u ''world'']"
  have h1: "\<not> has_pipe ?x" by (simp add: str_defs)
  have h2: "\<forall>c\<in>set ?x. islinebreak c \<longrightarrow> c = LF" by (simp add: str_defs)
  have h3: "?x = [] \<or> last ?x \<noteq> LF" by (simp add: str_defs)
  have h4: "\<forall>l\<in>set ?ls. \<not> has_pipe l \<and> (\<forall>c\<in>set l. \<not> islinebreak c)" by (simp add: str_defs)
  have h5: "?ls = [] \<or> last ?ls \<noteq> []" by (simp add: str_defs)
  note t = Claude37_round_5_no_pipe_lines[of ?x ?ls]
  from t h1 h2 h3 have a: "Claude37_round_5_fix_invalid_markdown_tables ?x = Inr ?x"
    "Claude37_round_5_fix_invalid_markdown_tables (?x @ [LF]) = Inr ?x"
    by blast+
  from t h4 h5 have b: "Claude37_round_5_fix_invalid_markdown_tables (join [CR, LF] ?ls)
                          = Inr (join [LF] ?ls)"
    by blast
  have e1: "?x @ [LF] = u ''hello\<newline>world\<newline>''" by (simp add: str_defs)
  have e2: "join [CR, LF] ?ls = u ''hello'' @ [CR, LF] @ u ''world''" by simp
  have e3: "join [LF] ?ls = ?x" by (simp add: str_defs)
  from h1 a b show ?thesis unfolding e1 e2 e3 by simp
qed



subsection \<open>Separator rows of a repaired block\<close>

lemma Claude37_round_3_standard_loop_result:
  "\<forall>i\<in>set idx. i < length rows \<Longrightarrow>
   Claude37_round_3_standard_loop rows (map Claude37_round_3_is_separator_row rows) style m idx fixed
     = Inr (fixed @
            map (\<lambda>i. Claude37_round_3_rebuild_row
                        (Claude37_round_3_normalize_row (rows ! i) (int m)) (fst style) (snd style))
                (filter (\<lambda>i. \<not> Claude37_round_3_is_separator_row (rows ! i)) idx))"
  by (induction idx arbitrary: fixed) (auto simp: get_def)

lemma Claude37_round_3_repeated_loop_result:
  "Claude37_round_3_repeated_loop rows (map Claude37_round_3_is_separator_row rows) style sep m i fixed
     = Inr (fixed @
            concat (map (\<lambda>i. [Claude37_round_3_rebuild_row
                                 (Claude37_round_3_normalize_row (rows ! i) (int m))
                                 (fst style) (snd style),
                               Claude37_round_3_rebuild_row sep (fst style) (snd style)])
                (filter (\<lambda>i. \<not> Claude37_round_3_is_separator_row (rows ! i)) [i..<length rows])))"
proof (induction rows "map Claude37_round_3_is_separator_row rows" style sep m i fixed
       rule: Claude37_round_3_repeated_loop.induct)
  case (1 rows style sep m i fixed)
  show ?case
  proof (cases "i < length rows")
    case False
    then show ?thesis by (subst Claude37_round_3_repeated_loop.simps) simp
  next
    case True
    then have g: "get (map Claude37_round_3_is_separator_row rows) i
                    = Inr (Claude37_round_3_is_separator_row (rows ! i))"
      by (simp add: get_def)
    have u: "[i..<length rows] = i # [i + 1..<length rows]"
      using True by (simp add: upt_conv_Cons)
    show ?thesis
    proof (cases "Claude37_round_3_is_separator_row (rows ! i)")
      case f: True
      from "1.hyps"(1)[OF True g f] True g f u
      show ?thesis by (subst Claude37_round_3_repeated_loop.simps) simp
    next
      case f: False
      from "1.hyps"(2)[OF True g f] True g f u
      show ?thesis by (subst Claude37_round_3_repeated_loop.simps) simp
    qed
  qed
qed

lemma Claude37_round_3_first_cell_cases:
  "Claude37_round_3_first_cell d cells =
     (case filter (\<lambda>c. strip c \<noteq> []) cells of [] \<Rightarrow> d | c # _ \<Rightarrow> strip c)"
  by (induction cells) auto

lemma Claude37_round_3_separator_style_cases:
  "Claude37_round_3_separator_style_loop d lines =
     (case filter Claude37_round_3_is_separator_row (map Claude37_round_3_parse_table_row lines) of
        [] \<Rightarrow> d
      | r # _ \<Rightarrow> Claude37_round_3_first_cell d r)"
  by (induction lines) (auto simp: Let_def)


lemma Claude37_round_3_separator_style_words:
  "sep_words (Claude37_round_3_get_separator_style lines)"
proof -
  have d: "sep_words SEP3"
    unfolding sep_fullmatch_words[symmetric]
    by (simp add: sep_fullmatch_def SEP3_def DASH_def COLON_def)
  let ?seps = "filter Claude37_round_3_is_separator_row (map Claude37_round_3_parse_table_row lines)"
  show ?thesis
  proof (cases ?seps)
    case Nil
    with d show ?thesis
      by (simp add: Claude37_round_3_get_separator_style_def Claude37_round_3_separator_style_cases)
  next
    case (Cons r rs)
    then have "r \<in> set ?seps" by simp
    then have r: "Claude37_round_3_is_separator_row r" by simp
    show ?thesis
    proof (cases "filter (\<lambda>c. strip c \<noteq> []) r")
      case Nil
      with Cons d show ?thesis
        by (simp add: Claude37_round_3_get_separator_style_def Claude37_round_3_separator_style_cases
            Claude37_round_3_first_cell_cases)
    next
      case c: (Cons c cs)
      then have "c \<in> set (filter (\<lambda>c. strip c \<noteq> []) r)" by simp
      with r have "sep_fullmatch (strip c)"
        by (auto simp: Claude37_round_3_is_separator_row_def list_all_iff split: if_splits)
      with Cons c show ?thesis
        by (simp add: Claude37_round_3_get_separator_style_def Claude37_round_3_separator_style_cases
            Claude37_round_3_first_cell_cases sep_fullmatch_words)
    qed
  qed
qed

text \<open>
  \<open>fix_invalid_table\<close> in closed form: the padded first row, the separator line, and
  each further row that is not a separator row, followed by the separator line in the
  repeated layout.
\<close>

lemma Claude37_round_3_fix_invalid_table_result:
  assumes "lines \<noteq> []"
  shows "(let rows = map Claude37_round_3_parse_table_row lines;
              m = Max (length ` set rows);
              style = Claude37_round_3_get_table_style (hd lines);
              sep_style = Claude37_round_3_get_separator_style lines;
              S = Claude37_round_3_rebuild_row (replicate m sep_style) (fst style) (snd style);
              R = (\<lambda>r. Claude37_round_3_rebuild_row (Claude37_round_3_normalize_row r (int m))
                          (fst style) (snd style))
          in Claude37_round_3_fix_invalid_table lines
               = Inr (R (hd rows) # S #
                      concat (map (\<lambda>r. if Claude37_round_3_detect_table_pattern lines
                                         then [R r, S] else [R r])
                                  (filter (\<lambda>r. \<not> Claude37_round_3_is_separator_row r) (tl rows))))
             \<and> sep_style =
                 (case filter Claude37_round_3_is_separator_row rows of
                    [] \<Rightarrow> SEP3
                  | r # _ \<Rightarrow> (case filter (\<lambda>c. strip c \<noteq> []) r of
                                [] \<Rightarrow> SEP3 | c # _ \<Rightarrow> strip c))
             \<and> sep_words sep_style)"
proof -
  define rows where "rows = map Claude37_round_3_parse_table_row lines"
  define m where "m = Max (length ` set rows)"
  define style where "style = Claude37_round_3_get_table_style (hd lines)"
  define sep_style where "sep_style = Claude37_round_3_get_separator_style lines"
  define S where "S = Claude37_round_3_rebuild_row (replicate m sep_style) (fst style) (snd style)"
  define R where "R = (\<lambda>r. Claude37_round_3_rebuild_row (Claude37_round_3_normalize_row r (int m))
                          (fst style) (snd style))"
  have ne: "rows \<noteq> []" using assms by (simp add: rows_def)
  have g0: "get lines 0 = Inr (hd lines)" using assms by (simp add: get_def hd_conv_nth)
  have g1: "get rows 0 = Inr (hd rows)" using ne by (simp add: get_def hd_conv_nth)
  have ml: "max_len rows = Inr m" using ne by (simp add: max_len_Max m_def)
  have t1: "[Suc 0..<length rows] = [1..<length rows]" by simp
  have std: "Claude37_round_3_standard_loop rows (map Claude37_round_3_is_separator_row rows)
               style m [1..<length rows] [R (hd rows), S]
             = Inr ([R (hd rows), S] @
                    map R (filter (\<lambda>r. \<not> Claude37_round_3_is_separator_row r) (drop 1 rows)))"
    using Claude37_round_3_standard_loop_result[of "[1..<length rows]" rows style m "[R (hd rows), S]"]
      index_filter_as_rows[of R rows "\<lambda>r. \<not> Claude37_round_3_is_separator_row r" 1]
    by (simp add: R_def)
  have rep: "Claude37_round_3_repeated_loop rows (map Claude37_round_3_is_separator_row rows)
               style (replicate m sep_style) m 1 [R (hd rows), S]
             = Inr ([R (hd rows), S] @
                    concat (map (\<lambda>r. [R r, S])
                      (filter (\<lambda>r. \<not> Claude37_round_3_is_separator_row r) (drop 1 rows))))"
    using Claude37_round_3_repeated_loop_result[of rows style "replicate m sep_style" m 1
        "[R (hd rows), S]"]
      index_filter_as_rows[of "\<lambda>r. [R r, S]" rows "\<lambda>r. \<not> Claude37_round_3_is_separator_row r" 1]
    by (simp add: R_def S_def)
  have c1: "concat (map (\<lambda>r. [R r]) xs) = map R xs" for xs
    by (induction xs) auto
  have out: "Claude37_round_3_fix_invalid_table lines
               = Inr (R (hd rows) # S #
                      concat (map (\<lambda>r. if Claude37_round_3_detect_table_pattern lines
                                         then [R r, S] else [R r])
                                  (filter (\<lambda>r. \<not> Claude37_round_3_is_separator_row r) (tl rows))))"
  proof (cases "Claude37_round_3_detect_table_pattern lines")
    case True
    with assms g0 g1 ml ne rep[unfolded R_def S_def style_def sep_style_def] show ?thesis
      unfolding R_def S_def style_def sep_style_def
      by (simp add: Claude37_round_3_fix_invalid_table_def Let_def rows_def[symmetric] drop_Suc)
  next
    case False
    with assms g0 g1 ml ne std[unfolded R_def S_def style_def sep_style_def]
      c1[unfolded R_def S_def style_def sep_style_def]
    show ?thesis
      unfolding R_def S_def style_def sep_style_def
      by (simp add: Claude37_round_3_fix_invalid_table_def Let_def rows_def[symmetric] drop_Suc)
  qed
  have sty: "sep_style =
                 (case filter Claude37_round_3_is_separator_row rows of
                    [] \<Rightarrow> SEP3
                  | r # _ \<Rightarrow> (case filter (\<lambda>c. strip c \<noteq> []) r of
                                [] \<Rightarrow> SEP3 | c # _ \<Rightarrow> strip c))"
    by (simp add: sep_style_def rows_def Claude37_round_3_get_separator_style_def
        Claude37_round_3_separator_style_cases Claude37_round_3_first_cell_cases
        split: list.splits)
  have w: "sep_words sep_style"
    unfolding sep_style_def by (rule Claude37_round_3_separator_style_words)
  from out sty w show ?thesis
    unfolding Let_def R_def S_def style_def sep_style_def m_def rows_def
    by blast
qed

text \<open>
  What a parsed row keeps of a rebuilt line: the non-blank cells are those of the
  cells the line was built from. So a row that is not a separator row is never read
  back as one with a non-blank cell, and the separator line always is.
\<close>

lemma Claude37_round_3_parse_nonblank:
  "nonblank (Claude37_round_3_parse_table_row line) = nonblank (map strip (split_on PIPE line))"
proof -
  define parts where "parts = split_on PIPE line"
  define parts1 where "parts1 = (if startswith_pipe (strip line) then slice_from parts 1 else parts)"
  define parts2 where "parts2 = (if endswith_pipe (strip line) then slice_to parts1 (- 1) else parts1)"
  have p: "Claude37_round_3_parse_table_row line = map strip parts2"
    by (simp add: Claude37_round_3_parse_table_row_def Let_def parts_def parts1_def parts2_def)
  have ne: "parts \<noteq> []" unfolding parts_def by (rule split_on_nonempty)
  have 1: "nonblank parts1 = nonblank parts \<and> parts1 \<noteq> [] \<and> last parts1 = last parts"
  proof (cases "startswith_pipe (strip line)")
    case False
    with ne show ?thesis by (simp add: parts1_def)
  next
    case True
    then obtain w rest where l: "line = w @ PIPE # rest" and w: "\<forall>c\<in>set w. isspace c"
      using startswith_pipe_strip by blast
    have "parts = w # split_on PIPE rest"
      unfolding parts_def l using blank_no_pipe[OF w] by (rule split_on_append)
    moreover have "strip w = []" using w by (rule strip_blank)
    ultimately show ?thesis
      using True split_on_nonempty[of PIPE rest]
      by (simp add: parts1_def slice_from_def nonblank_def)
  qed
  have 2: "nonblank parts2 = nonblank parts1"
  proof (cases "endswith_pipe (strip line)")
    case False
    then show ?thesis by (simp add: parts2_def)
  next
    case True
    then obtain init w where l: "line = init @ PIPE # w" and w: "\<forall>c\<in>set w. isspace c"
      using endswith_pipe_strip by blast
    have "parts = split_on PIPE init @ [w]"
      unfolding parts_def l using blank_no_pipe[OF w] by (rule split_on_snoc)
    then have "last parts = w" by simp
    moreover have "strip w = []" using w by (rule strip_blank)
    ultimately have "strip (last parts1) = []" using 1 by simp
    with 1 have "nonblank (butlast parts1) = nonblank parts1" by (intro nonblank_butlast) auto
    moreover have "slice_to parts1 (- 1) = butlast parts1"
      by (simp add: slice_to_def butlast_conv_take)
    ultimately show ?thesis using True by (simp add: parts2_def)
  qed
  have "nonblank (map strip parts2) = map strip (nonblank parts2)" by (rule nonblank_map_strip)
  also have "\<dots> = map strip (nonblank parts)" using 1 2 by simp
  also have "\<dots> = nonblank (map strip parts)" by (rule nonblank_map_strip[symmetric])
  finally show ?thesis unfolding p parts_def .
qed

lemma Claude37_round_3_rebuild_split:
  assumes "cells \<noteq> []" and "\<forall>c\<in>set cells. PIPE \<notin> set c"
  shows "map strip (split_on PIPE (Claude37_round_3_rebuild_row cells a b))
           = (if a then [[]] else []) @ map strip cells @ (if b then [[]] else [])"
proof -
  have m: "map strip (split_on PIPE (pre @ join BAR cells @ post)) = map strip cells"
    if "\<forall>c\<in>set pre. isspace c" "\<forall>c\<in>set post. isspace c" for pre post
    using assms that by (rule split_join_BAR)
  have m0: "map strip (split_on PIPE (join BAR cells)) = map strip cells"
    using m[of "[]" "[]"] by simp
  have m1: "map strip (split_on PIPE (SPACE # join BAR cells)) = map strip cells"
    using m[of "[SPACE]" "[]"] isspace_SPACE by simp
  have m2: "map strip (split_on PIPE (join BAR cells @ [SPACE])) = map strip cells"
    using m[of "[]" "[SPACE]"] isspace_SPACE by simp
  have m3: "map strip (split_on PIPE (SPACE # join BAR cells @ [SPACE])) = map strip cells"
    using m[of "[SPACE]" "[SPACE]"] isspace_SPACE by simp
  have s: "split_on PIPE (x @ [SPACE, PIPE]) = split_on PIPE (x @ [SPACE]) @ [[]]" for x
    using split_on_snoc[of PIPE "[]" "x @ [SPACE]"] by simp
  have sp: "SPACE \<noteq> PIPE" by (simp add: SPACE_def PIPE_def)
  show ?thesis
    using assms(1) m0 m1 m2 m3 s[of "join BAR cells"] s[of "SPACE # join BAR cells"] sp
    by (cases a; cases b) (simp_all add: Claude37_round_3_rebuild_row_def Let_def strip_Nil)
qed

lemma Claude37_round_3_parse_rebuild_nonblank:
  assumes "\<forall>c\<in>set cells. PIPE \<notin> set c"
  shows "nonblank (Claude37_round_3_parse_table_row (Claude37_round_3_rebuild_row cells a b))
           = map strip (nonblank cells)"
proof (cases "cells = []")
  case True
  then show ?thesis
    unfolding Claude37_round_3_parse_nonblank
    by (simp add: Claude37_round_3_rebuild_row_def nonblank_def strip_Nil)
next
  case False
  have "nonblank ((if a then [[]] else []) @ map strip cells @ (if b then [[]] else []))
          = nonblank (map strip cells)"
    by (simp add: nonblank_def strip_Nil)
  then show ?thesis
    unfolding Claude37_round_3_parse_nonblank Claude37_round_3_rebuild_split[OF False assms]
    by (simp add: nonblank_map_strip)
qed


lemma Claude37_round_3_separator_row_nonblank:
  "Claude37_round_3_is_separator_row cells \<and> list_ex (\<lambda>c. strip c \<noteq> []) cells \<longleftrightarrow>
     nonblank cells \<noteq> [] \<and> list_all (\<lambda>c. sep_fullmatch (strip c)) (nonblank cells)"
  by (auto simp: Claude37_round_3_is_separator_row_def nonblank_def list_ex_iff filter_empty_conv)

lemma Claude37_round_3_parse_no_pipe:
  assumes "c \<in> set (Claude37_round_3_parse_table_row line)"
  shows "PIPE \<notin> set c"
proof -
  define parts where "parts = split_on PIPE line"
  define parts1 where "parts1 = (if startswith_pipe (strip line) then slice_from parts 1 else parts)"
  define parts2 where "parts2 = (if endswith_pipe (strip line) then slice_to parts1 (- 1) else parts1)"
  have p: "Claude37_round_3_parse_table_row line = map strip parts2"
    by (simp add: Claude37_round_3_parse_table_row_def Let_def parts_def parts1_def parts2_def)
  have "set parts1 \<subseteq> set parts"
    by (auto simp: parts1_def slice_from_def dest: in_set_dropD)
  moreover have "set parts2 \<subseteq> set parts1"
    by (auto simp: parts2_def slice_to_def dest: in_set_takeD)
  ultimately have "set parts2 \<subseteq> set parts" by blast
  moreover from assms obtain q where "q \<in> set parts2" and c: "c = strip q" unfolding p by auto
  ultimately have "q \<in> set (split_on PIPE line)" by (auto simp: parts_def)
  then have "PIPE \<notin> set q" by (rule split_on_parts)
  with c set_strip[of q] show ?thesis by auto
qed

lemma Claude37_round_3_normalize_row_pad:
  "length r \<le> m \<Longrightarrow> Claude37_round_3_normalize_row r (int m) = r @ replicate (m - length r) []"
  by (simp add: Claude37_round_3_normalize_row_def nat_diff_distrib' of_nat_diff)

lemma Claude37_round_3_merge_loop_nonempty:
  "merged \<noteq> [] \<or> ls \<noteq> [] \<Longrightarrow> Claude37_round_3_merge_loop merged ls \<noteq> []"
  by (induction ls arbitrary: merged) auto

lemma Claude37_round_3_data_row_not_separator:
  assumes r: "\<not> Claude37_round_3_is_separator_row r" and np: "\<forall>c\<in>set r. PIPE \<notin> set c"
    and le: "length r \<le> m"
  shows "\<not> (Claude37_round_3_is_separator_row
              (Claude37_round_3_parse_table_row
                 (Claude37_round_3_rebuild_row (Claude37_round_3_normalize_row r (int m)) a b))
            \<and> list_ex (\<lambda>c. strip c \<noteq> [])
                (Claude37_round_3_parse_table_row
                   (Claude37_round_3_rebuild_row (Claude37_round_3_normalize_row r (int m)) a b)))"
proof -
  let ?N = "Claude37_round_3_normalize_row r (int m)"
  have N: "?N = r @ replicate (m - length r) []"
    using le by (rule Claude37_round_3_normalize_row_pad)
  have "\<forall>c\<in>set ?N. PIPE \<notin> set c" unfolding N using np by auto
  then have "nonblank (Claude37_round_3_parse_table_row (Claude37_round_3_rebuild_row ?N a b))
               = map strip (nonblank ?N)"
    by (rule Claude37_round_3_parse_rebuild_nonblank)
  also have "nonblank ?N = nonblank r"
    unfolding N by (simp add: nonblank_append nonblank_replicate_Nil)
  finally have e: "nonblank (Claude37_round_3_parse_table_row (Claude37_round_3_rebuild_row ?N a b))
               = map strip (nonblank r)" .
  have "\<not> (nonblank r \<noteq> [] \<and> list_all (\<lambda>c. sep_fullmatch (strip c)) (nonblank r))"
    using r unfolding Claude37_round_3_separator_row_nonblank[symmetric] by simp
  then show ?thesis
    unfolding Claude37_round_3_separator_row_nonblank e
    by (simp add: list_all_iff strip_strip)
qed

lemma Claude37_round_3_separator_line_is_separator:
  assumes w: "sep_words st" and m: "0 < m"
  shows "Claude37_round_3_is_separator_row
              (Claude37_round_3_parse_table_row (Claude37_round_3_rebuild_row (replicate m st) a b))
         \<and> list_ex (\<lambda>c. strip c \<noteq> [])
              (Claude37_round_3_parse_table_row (Claude37_round_3_rebuild_row (replicate m st) a b))"
proof -
  have s: "strip st = st" using w by (rule sep_words_strip)
  have ne: "st \<noteq> []" using sep_words_chars[OF w] by simp
  have "\<forall>c\<in>set (replicate m st). PIPE \<notin> set c" using sep_words_no_pipe[OF w] by simp
  then have "nonblank (Claude37_round_3_parse_table_row
                        (Claude37_round_3_rebuild_row (replicate m st) a b))
               = map strip (nonblank (replicate m st))"
    by (rule Claude37_round_3_parse_rebuild_nonblank)
  also have "\<dots> = replicate m st" using s ne by (simp add: nonblank_def)
  finally have e: "nonblank (Claude37_round_3_parse_table_row
                        (Claude37_round_3_rebuild_row (replicate m st) a b)) = replicate m st" .
  show ?thesis
    unfolding Claude37_round_3_separator_row_nonblank e
    using m s w by (simp add: list_all_iff sep_fullmatch_words)
qed

lemmas Claude37_round_3_defs = Claude37_round_3_merge_continuation_lines_def
  Claude37_round_3_parse_table_row_def Claude37_round_3_is_separator_row_def
  Claude37_round_3_is_valid_table_def Claude37_round_3_get_table_style_def
  Claude37_round_3_get_separator_style_def Claude37_round_3_detect_table_pattern_def
  Claude37_round_3_normalize_row_def Claude37_round_3_rebuild_row_def
  Claude37_round_3_repeated_loop.simps Claude37_round_3_fix_invalid_table_def
  Claude37_round_3_flush_table_block_def Claude37_round_3_fix_invalid_markdown_tables_def

text \<open>
  C7, as stated, fails on \<open>a|b\<close>, \<open>:---|:---\<close>, \<open>1|2|3\<close>: the block is invalid
  (ragged columns) and the separator row emitted is \<open>:--- | :--- | :---\<close>, with the
  colons of the original separator cell.
\<close>

theorem Claude37_round_3_separator_colons_counterexample:
  "\<not> Claude37_round_3_is_valid_table [u ''a|b'', u '':---|:---'', u ''1|2|3'']
   \<and> Claude37_round_3_fix_invalid_markdown_tables (u ''a|b\<newline>:---|:---\<newline>1|2|3'')
       = Inr (u ''a | b | \<newline>:--- | :--- | :---\<newline>1 | 2 | 3'')"
  by (simp add: Claude37_round_3_defs splitlines.simps str_defs Let_def enumerate_eq_zip)

text \<open>
  C7, amended. When \<open>Claude37_round_3\<close> repairs a block (two or more pipe lines, the
  merged lines failing \<open>is_valid_table\<close>), the lines it emits are: the first row, padded,
  whatever its cells are, even when they are those of a separator row (on
  \<open>-----|:---:\<close>, \<open>a|b|c\<close> the first line is \<open>----- | :---: | \<close>); then the separator
  line; then each further row that is not a separator row, in order, followed by the
  separator line in the repeated layout. Every line emitted after the first one that
  parses to a separator row with at least one non-blank cell is the separator line:
  as many copies as the widest row has cells of one cell, the block's separator
  style. (A row without cells, such as the line \<open>|\<close>, is emitted as blank cells.) The
  style is the trimmed first non-blank cell of the first separator row among the
  merged lines, and \<open>---\<close> only when there is none; it always matches
  \<open>^:?-{3,}:?$\<close>, so the colons and the hyphen count of that cell are reproduced.
\<close>

theorem Claude37_round_3_separator_rows:
  assumes "2 \<le> length (filter has_pipe block)"
    and "\<not> Claude37_round_3_is_valid_table (Claude37_round_3_merge_continuation_lines block)"
  shows "(let lines = Claude37_round_3_merge_continuation_lines block;
              rows = map Claude37_round_3_parse_table_row lines;
              m = Max (length ` set rows);
              style = Claude37_round_3_get_table_style (hd lines);
              sep_style = Claude37_round_3_get_separator_style lines;
              S = Claude37_round_3_rebuild_row (replicate m sep_style) (fst style) (snd style);
              R = (\<lambda>r. Claude37_round_3_rebuild_row (Claude37_round_3_normalize_row r (int m))
                          (fst style) (snd style));
              out = R (hd rows) # S #
                      concat (map (\<lambda>r. if Claude37_round_3_detect_table_pattern lines
                                         then [R r, S] else [R r])
                                  (filter (\<lambda>r. \<not> Claude37_round_3_is_separator_row r) (tl rows)))
          in Claude37_round_3_flush_table_block (result_lines, block)
               = Inr (result_lines @ out, [])
             \<and> (\<forall>l\<in>set (tl out).
                   Claude37_round_3_is_separator_row (Claude37_round_3_parse_table_row l)
                   \<and> list_ex (\<lambda>c. strip c \<noteq> []) (Claude37_round_3_parse_table_row l)
                   \<longrightarrow> l = S)
             \<and> (0 < m \<longrightarrow>
                   Claude37_round_3_is_separator_row (Claude37_round_3_parse_table_row S)
                   \<and> list_ex (\<lambda>c. strip c \<noteq> []) (Claude37_round_3_parse_table_row S))
             \<and> sep_style =
                 (case filter Claude37_round_3_is_separator_row rows of
                    [] \<Rightarrow> SEP3
                  | r # _ \<Rightarrow> (case filter (\<lambda>c. strip c \<noteq> []) r of
                                [] \<Rightarrow> SEP3 | c # _ \<Rightarrow> strip c))
             \<and> sep_words sep_style)"
proof -
  define lines where "lines = Claude37_round_3_merge_continuation_lines block"
  define rows where "rows = map Claude37_round_3_parse_table_row lines"
  define m where "m = Max (length ` set rows)"
  define style where "style = Claude37_round_3_get_table_style (hd lines)"
  define sep_style where "sep_style = Claude37_round_3_get_separator_style lines"
  define S where "S = Claude37_round_3_rebuild_row (replicate m sep_style) (fst style) (snd style)"
  define R where "R = (\<lambda>r. Claude37_round_3_rebuild_row (Claude37_round_3_normalize_row r (int m))
                          (fst style) (snd style))"
  define out where "out = R (hd rows) # S #
                      concat (map (\<lambda>r. if Claude37_round_3_detect_table_pattern lines
                                         then [R r, S] else [R r])
                                  (filter (\<lambda>r. \<not> Claude37_round_3_is_separator_row r) (tl rows)))"
  have bne: "block \<noteq> []" using assms(1) by auto
  have lne: "lines \<noteq> []"
    unfolding lines_def Claude37_round_3_merge_continuation_lines_def
    using bne by (intro Claude37_round_3_merge_loop_nonempty) simp
  have rne: "rows \<noteq> []" using lne by (simp add: rows_def)
  from Claude37_round_3_fix_invalid_table_result[OF lne]
  have fx: "Claude37_round_3_fix_invalid_table lines = Inr out"
    and sty: "sep_style =
                 (case filter Claude37_round_3_is_separator_row rows of
                    [] \<Rightarrow> SEP3
                  | r # _ \<Rightarrow> (case filter (\<lambda>c. strip c \<noteq> []) r of
                                [] \<Rightarrow> SEP3 | c # _ \<Rightarrow> strip c))"
    and w: "sep_words sep_style"
    unfolding Let_def out_def R_def S_def style_def sep_style_def m_def rows_def by blast+
  have fl: "Claude37_round_3_flush_table_block (result_lines, block)
              = Inr (result_lines @ out, [])"
    using assms bne fx
    by (simp add: Claude37_round_3_flush_table_block_def Let_def lines_def[symmetric])
  have q: "\<forall>l\<in>set (tl out).
             Claude37_round_3_is_separator_row (Claude37_round_3_parse_table_row l)
             \<and> list_ex (\<lambda>c. strip c \<noteq> []) (Claude37_round_3_parse_table_row l)
             \<longrightarrow> l = S"
  proof (intro ballI impI)
    fix l
    assume l: "l \<in> set (tl out)"
      and sp: "Claude37_round_3_is_separator_row (Claude37_round_3_parse_table_row l)
               \<and> list_ex (\<lambda>c. strip c \<noteq> []) (Claude37_round_3_parse_table_row l)"
    from l have "l = S \<or> (\<exists>r\<in>set (tl rows). \<not> Claude37_round_3_is_separator_row r \<and> l = R r)"
      by (auto simp: out_def split: if_splits)
    then show "l = S"
    proof
      assume "l = S"
      then show ?thesis .
    next
      assume "\<exists>r\<in>set (tl rows). \<not> Claude37_round_3_is_separator_row r \<and> l = R r"
      then obtain r where r: "r \<in> set (tl rows)" and ns: "\<not> Claude37_round_3_is_separator_row r"
        and lr: "l = R r" by blast
      from r rne have rr: "r \<in> set rows" by (cases rows) auto
      then have le: "length r \<le> m" by (simp add: m_def)
      from rr have np: "\<forall>c\<in>set r. PIPE \<notin> set c"
        by (auto simp: rows_def dest: Claude37_round_3_parse_no_pipe)
      from Claude37_round_3_data_row_not_separator[OF ns np le, of "fst style" "snd style"] sp
      show ?thesis unfolding lr R_def by blast
    qed
  qed
  have sl: "0 < m \<longrightarrow>
              Claude37_round_3_is_separator_row (Claude37_round_3_parse_table_row S)
              \<and> list_ex (\<lambda>c. strip c \<noteq> []) (Claude37_round_3_parse_table_row S)"
    unfolding S_def using Claude37_round_3_separator_line_is_separator[OF w] by blast
  show ?thesis
    unfolding Let_def
    using fl[unfolded out_def R_def S_def style_def sep_style_def m_def rows_def lines_def]
      q[unfolded out_def R_def S_def style_def sep_style_def m_def rows_def lines_def]
      sl[unfolded out_def R_def S_def style_def sep_style_def m_def rows_def lines_def]
      sty[unfolded out_def R_def S_def style_def sep_style_def m_def rows_def lines_def]
      w[unfolded out_def R_def S_def style_def sep_style_def m_def rows_def lines_def]
    by (intro conjI)
qed

theorem Claude37_round_3_separator_rows_witness:
  "2 \<le> length (filter has_pipe [u ''-----|:---:'', u ''a|b|c''])
   \<and> \<not> Claude37_round_3_is_valid_table
         (Claude37_round_3_merge_continuation_lines [u ''-----|:---:'', u ''a|b|c''])
   \<and> Claude37_round_3_flush_table_block ([], [u ''-----|:---:'', u ''a|b|c''])
       = Inr ([u ''----- | :---: | '', u ''----- | ----- | -----'', u ''a | b | c''], [])
   \<and> Claude37_round_3_get_separator_style
         (Claude37_round_3_merge_continuation_lines [u ''-----|:---:'', u ''a|b|c'']) = u ''-----''
   \<and> sep_words (u ''-----'')
   \<and> Claude37_round_3_is_separator_row (Claude37_round_3_parse_table_row (u ''----- | :---: | ''))
   \<and> Claude37_round_3_is_separator_row
         (Claude37_round_3_parse_table_row (u ''----- | ----- | -----''))
   \<and> \<not> Claude37_round_3_is_separator_row (Claude37_round_3_parse_table_row (u ''a | b | c''))"
proof -
  let ?B = "[u ''-----|:---:'', u ''a|b|c'']"
  have h1: "2 \<le> length (filter has_pipe ?B)" by (simp add: str_defs)
  have h2: "\<not> Claude37_round_3_is_valid_table (Claude37_round_3_merge_continuation_lines ?B)"
    by (simp add: Claude37_round_3_defs str_defs Let_def)
  have s: "Claude37_round_3_get_separator_style (Claude37_round_3_merge_continuation_lines ?B)
             = u ''-----''"
    by (simp add: Claude37_round_3_defs str_defs Let_def)
  have f: "Claude37_round_3_flush_table_block ([], ?B)
       = Inr ([u ''----- | :---: | '', u ''----- | ----- | -----'', u ''a | b | c''], [])"
    by (simp add: Claude37_round_3_defs str_defs Let_def enumerate_eq_zip)
  have p: "Claude37_round_3_is_separator_row (Claude37_round_3_parse_table_row (u ''----- | :---: | ''))"
    "Claude37_round_3_is_separator_row (Claude37_round_3_parse_table_row (u ''----- | ----- | -----''))"
    "\<not> Claude37_round_3_is_separator_row (Claude37_round_3_parse_table_row (u ''a | b | c''))"
    by (simp_all add: Claude37_round_3_defs str_defs Let_def)
  from Claude37_round_3_separator_rows[OF h1 h2, of "[]"]
  have "sep_words (Claude37_round_3_get_separator_style (Claude37_round_3_merge_continuation_lines ?B))"
    unfolding Let_def by blast
  then have "sep_words (u ''-----'')" unfolding s .
  with h1 h2 s f p show ?thesis by blast
qed

subsection \<open>Lines without pipes in Grok3\_round\_1\<close>

lemmas Grok3_round_1_defs = Grok3_round_1_split_row_def Grok3_round_1_blocks_def
  Grok3_round_1_pad_def Grok3_round_1_format_def Grok3_round_1_fix_block_def
  Grok3_round_1_fix_invalid_markdown_tables_def

lemma Grok3_round_1_group_loop_concat:
  "concat (Grok3_round_1_group_loop blocks current ls)
     = concat blocks @ current @ filter (\<lambda>l. strip l \<noteq> []) ls"
  by (induction ls arbitrary: blocks current) auto

lemma Grok3_round_1_group_loop_nonempty:
  "\<forall>b\<in>set blocks. b \<noteq> [] \<Longrightarrow> \<forall>b\<in>set (Grok3_round_1_group_loop blocks current ls). b \<noteq> []"
proof (induction ls arbitrary: blocks current)
  case Nil
  then show ?case by auto
next
  case (Cons l ls)
  show ?case
  proof (cases "strip l \<noteq> []")
    case True
    with Cons.IH[OF Cons.prems, of "current @ [l]"] show ?thesis by simp
  next
    case False
    show ?thesis
    proof (cases "current \<noteq> []")
      case True
      with Cons.prems have "\<forall>b\<in>set (blocks @ [current]). b \<noteq> []" by simp
      from Cons.IH[OF this, of "[]"] False True show ?thesis by simp
    next
      case c: False
      with Cons.IH[OF Cons.prems, of current] False show ?thesis by simp
    qed
  qed
qed

lemma Grok3_round_1_fix_block_total:
  assumes "block \<noteq> []"
  shows "\<exists>r. Grok3_round_1_fix_block block = Inr r"
proof -
  from assms obtain n where "max_len (map Grok3_round_1_split_row block) = Inr n"
    by (cases block) (auto simp: max_len_def)
  moreover from assms have "get block 0 = Inr (hd block)" by (simp add: get_def hd_conv_nth)
  ultimately show ?thesis by (simp add: Grok3_round_1_fix_block_def Let_def)
qed

lemma Grok3_round_1_fix_block_plain:
  "length (filter has_pipe block) < 3 \<Longrightarrow> Grok3_round_1_fix_block block = Inr (join [LF] block)"
  by (simp add: Grok3_round_1_fix_block_def)

lemma Grok3_round_1_process_blocks_result:
  "\<forall>b\<in>set blocks. b \<noteq> [] \<Longrightarrow>
   \<exists>fb. Grok3_round_1_process_blocks acc blocks = Inr (acc @ fb)
      \<and> list_all2 (\<lambda>b f. Grok3_round_1_fix_block b = Inr f) blocks fb"
proof (induction blocks arbitrary: acc)
  case Nil
  show ?case by simp
next
  case (Cons b blocks)
  then obtain r where r: "Grok3_round_1_fix_block b = Inr r"
    using Grok3_round_1_fix_block_total[of b] by auto
  from Cons.IH[of "acc @ [r]"] Cons.prems obtain fb
    where "Grok3_round_1_process_blocks (acc @ [r]) blocks = Inr ((acc @ [r]) @ fb)"
      and "list_all2 (\<lambda>b f. Grok3_round_1_fix_block b = Inr f) blocks fb"
    by auto
  with r show ?case by (intro exI[of _ "r # fb"]) simp
qed

text \<open>
  What \<open>Grok3_round_1\<close> does with its lines: it cuts them into blocks, the maximal
  runs of non-blank lines, so the blocks hold exactly the non-blank lines, in order.
  The output is the processed blocks joined by one empty line; a block with fewer than
  three pipe lines is its own lines joined by \<open>\n\<close>.
\<close>

lemma Grok3_round_1_blocks_and_lines:
  "(\<exists>fixed_blocks.
      Grok3_round_1_fix_invalid_markdown_tables x = Inr (join [LF, LF] fixed_blocks)
      \<and> list_all2 (\<lambda>block f. length (filter has_pipe block) < 3 \<longrightarrow> f = join [LF] block)
           (Grok3_round_1_blocks (splitlines x)) fixed_blocks)
   \<and> concat (Grok3_round_1_blocks (splitlines x)) = filter (\<lambda>l. strip l \<noteq> []) (splitlines x)
   \<and> ((\<forall>block\<in>set (Grok3_round_1_blocks (splitlines x)). length (filter has_pipe block) < 3) \<longrightarrow>
        Grok3_round_1_fix_invalid_markdown_tables x
          = Inr (join [LF, LF] (map (join [LF]) (Grok3_round_1_blocks (splitlines x)))))"
proof -
  define blocks where "blocks = Grok3_round_1_blocks (splitlines x)"
  have ne: "\<forall>b\<in>set blocks. b \<noteq> []"
    unfolding blocks_def Grok3_round_1_blocks_def
    by (rule Grok3_round_1_group_loop_nonempty) simp
  from Grok3_round_1_process_blocks_result[OF ne, of "[]"] obtain fb
    where p: "Grok3_round_1_process_blocks [] blocks = Inr fb"
      and l: "list_all2 (\<lambda>b f. Grok3_round_1_fix_block b = Inr f) blocks fb"
    by auto
  have f: "Grok3_round_1_fix_invalid_markdown_tables x = Inr (join [LF, LF] fb)"
    using p by (simp add: Grok3_round_1_fix_invalid_markdown_tables_def blocks_def Let_def)
  have l2: "list_all2 (\<lambda>block f. length (filter has_pipe block) < 3 \<longrightarrow> f = join [LF] block) blocks fb"
    using l by (rule list_all2_mono) (auto simp: Grok3_round_1_fix_block_plain)
  have c: "concat blocks = filter (\<lambda>l. strip l \<noteq> []) (splitlines x)"
    by (simp add: blocks_def Grok3_round_1_blocks_def Grok3_round_1_group_loop_concat)
  have a: "Grok3_round_1_fix_invalid_markdown_tables x = Inr (join [LF, LF] (map (join [LF]) blocks))"
    if h: "\<forall>block\<in>set blocks. length (filter has_pipe block) < 3"
  proof -
    have "list_all2 (\<lambda>b f. f = join [LF] b) blocks fb"
      using l2 h by (auto simp: list_all2_conv_all_nth)
    then have "fb = map (join [LF]) blocks"
      by (auto simp: list_all2_conv_all_nth intro: nth_equalityI)
    with f show ?thesis by simp
  qed
  from f l2 c a show ?thesis unfolding blocks_def by blast
qed

text \<open>
  C9. Every line without a pipe, blank lines included, should appear unchanged and in
  place in the output, and the docstring of \<open>Grok3_round_1.fix_invalid_markdown_tables\<close>
  promises that non-table content is left unchanged. The code does not keep it: of the
  two blank lines of \<open>"a\n\n\nb"\<close> one is left; leading and trailing blank lines
  vanish and a line of one space comes out empty; and a line without a pipe inside a
  block of three pipe lines is rewritten as a table row.
\<close>

theorem Grok3_round_1_blank_lines_dropped:
  "splitlines (u ''a\<newline>\<newline>\<newline>b'') = [u ''a'', [], [], u ''b'']
   \<and> Grok3_round_1_fix_invalid_markdown_tables (u ''a\<newline>\<newline>\<newline>b'') = Inr (u ''a\<newline>\<newline>b'')
   \<and> splitlines (u ''a\<newline>\<newline>b'') = [u ''a'', [], u ''b'']
   \<and> Grok3_round_1_fix_invalid_markdown_tables (u ''\<newline>a\<newline> \<newline>b\<newline>'') = Inr (u ''a\<newline>\<newline>b'')
   \<and> Grok3_round_1_fix_invalid_markdown_tables (u ''a|b\<newline>c|d\<newline>e|f\<newline>text'')
       = Inr (u ''| a | b |\<newline>| --- | --- |\<newline>| c | d |\<newline>| e | f |\<newline>| text |  |'')"
  by (simp add: Grok3_round_1_defs splitlines.simps str_defs Let_def)

lemma Grok3_round_1_blocks_and_lines_example:
  "list_all (\<lambda>block. length (filter has_pipe block) < 3)
     (Grok3_round_1_blocks (splitlines (u ''a\<newline>x|y\<newline>\<newline>\<newline>b'')))
   \<and> Grok3_round_1_blocks (splitlines (u ''a\<newline>x|y\<newline>\<newline>\<newline>b'')) = [[u ''a'', u ''x|y''], [u ''b'']]
   \<and> Grok3_round_1_fix_invalid_markdown_tables (u ''a\<newline>x|y\<newline>\<newline>\<newline>b'')
       = Inr (u ''a\<newline>x|y\<newline>\<newline>b'')"
proof -
  let ?x = "u ''a\<newline>x|y\<newline>\<newline>\<newline>b''"
  have b: "Grok3_round_1_blocks (splitlines ?x) = [[u ''a'', u ''x|y''], [u ''b'']]"
    by (simp add: Grok3_round_1_defs splitlines.simps str_defs)
  have h: "\<forall>block\<in>set (Grok3_round_1_blocks (splitlines ?x)). length (filter has_pipe block) < 3"
    unfolding b by (simp add: str_defs)
  from Grok3_round_1_blocks_and_lines[of ?x] h
  have "Grok3_round_1_fix_invalid_markdown_tables ?x
          = Inr (join [LF, LF] (map (join [LF]) (Grok3_round_1_blocks (splitlines ?x))))"
    by blast
  then have f: "Grok3_round_1_fix_invalid_markdown_tables ?x = Inr (u ''a\<newline>x|y\<newline>\<newline>b'')"
    unfolding b by (simp add: str_defs)
  from h have "list_all (\<lambda>block. length (filter has_pipe block) < 3) (Grok3_round_1_blocks (splitlines ?x))"
    by (simp add: list_all_iff)
  with b f show ?thesis by blast
qed

subsection \<open>Claude37\_round\_1 never raises\<close>

lemma enumerate_filter_indices:
  "i \<in> set (map fst (filter P (enumerate 0 xs))) \<Longrightarrow> i < length xs"
  by (auto simp: in_set_enumerate_eq)

lemma get_in_range: "i < length xs \<Longrightarrow> get xs i = Inr (xs ! i)"
  by (simp add: get_def)

lemma get_first: "xs \<noteq> [] \<Longrightarrow> get xs 0 = Inr (hd xs)"
  by (simp add: get_def hd_conv_nth)

lemma Claude37_round_1_inner_total:
  "cur \<noteq> [] \<Longrightarrow>
   \<exists>j' cur'. Claude37_round_1_inner lines sep j cur = Inr (j', cur') \<and> cur' \<noteq> []"
proof (induction lines sep j cur rule: Claude37_round_1_inner.induct)
  case (1 lines sep j cur)
  show ?case
  proof (cases "j < length lines \<and> j \<notin> set sep \<and> \<not> startswith_pipe (strip (lines ! j))")
    case False
    with "1.prems" show ?thesis
      by (subst Claude37_round_1_inner.simps, subst if_not_P[OF False]) simp
  next
    case True
    from "1.prems" obtain l ls where r: "rev cur = l # ls" by (cases "rev cur") auto
    have "butlast cur @ [l @ [SPACE] @ strip (lines ! j)] \<noteq> []" by simp
    from "1.IH"[OF True r this] r show ?thesis
      by (subst Claude37_round_1_inner.simps, subst if_P[OF True]) simp
  qed
qed

lemma Claude37_round_1_outer_total:
  "\<forall>r\<in>set rows. r \<noteq> [] \<Longrightarrow>
   \<exists>rows' cur'. Claude37_round_1_outer lines sep i rows cur = Inr (rows', cur')
      \<and> (\<forall>r\<in>set rows'. r \<noteq> [])"
proof (induction lines sep i rows cur rule: Claude37_round_1_outer.induct)
  case (1 lines sep i rows cur)
  show ?case
  proof (cases "i < length lines")
    case False
    with "1.prems" show ?thesis by (simp add: Claude37_round_1_outer.simps)
  next
    case il: True
    show ?thesis
    proof (cases "i \<in> set sep")
      case True
      have "\<forall>r\<in>set ((if cur \<noteq> [] then rows @ [cur] else rows) @ [[lines ! i]]). r \<noteq> []"
        using "1.prems" by auto
      from "1.IH"(1)[OF il True this] il True show ?thesis
        by (subst Claude37_round_1_outer.simps) simp
    next
      case ns: False
      obtain j cur' where inn: "Claude37_round_1_inner lines sep (i + 1) [lines ! i] = Inr (j, cur')"
        and ne: "cur' \<noteq> []"
        using Claude37_round_1_inner_total[of "[lines ! i]" lines sep "i + 1"] by auto
      show ?thesis
      proof (cases "length lines \<le> j \<or> j \<in> set sep")
        case True
        have "\<forall>r\<in>set (rows @ [cur']). r \<noteq> []" using "1.prems" ne by auto
        from "1.IH"(2)[OF il ns inn refl True ne this] il ns inn True ne show ?thesis
          by (subst Claude37_round_1_outer.simps) simp
      next
        case False
        from "1.IH"(4)[OF il ns inn refl False "1.prems"] il ns inn False show ?thesis
          by (subst Claude37_round_1_outer.simps) simp
      qed
    qed
  qed
qed

lemma Claude37_round_1_first_separator_total:
  "\<forall>r\<in>set rows. r \<noteq> [] \<Longrightarrow>
   (\<exists>k. Claude37_round_1_first_separator i rows = Inr (Some k) \<and> i \<le> k \<and> k < i + length rows)
   \<or> Claude37_round_1_first_separator i rows = Inr None"
proof (induction rows arbitrary: i)
  case Nil
  show ?case by simp
next
  case (Cons r rows)
  then have g: "get r 0 = Inr (hd r)" by (simp add: get_first)
  from Cons.IH[of "i + 1"] Cons.prems
  have "(\<exists>k. Claude37_round_1_first_separator (i + 1) rows = Inr (Some k) \<and> i + 1 \<le> k
            \<and> k < i + 1 + length rows)
        \<or> Claude37_round_1_first_separator (i + 1) rows = Inr None"
    by simp
  with g show ?case by (cases "contains SEP3 (hd r)") auto
qed

lemma Claude37_round_1_other_rows_total:
  "\<forall>e\<in>set es. snd e \<noteq> [] \<Longrightarrow> acc \<noteq> [] \<Longrightarrow>
   \<exists>res. Claude37_round_1_other_rows idx acc es = Inr res \<and> res \<noteq> []"
proof (induction es arbitrary: acc)
  case Nil
  then show ?case by simp
next
  case (Cons e es)
  obtain i row where e: "e = (i, row)" by (cases e)
  with Cons.prems have "get row 0 = Inr (hd row)" by (simp add: get_first)
  moreover from Cons.IH[of acc] Cons.prems
  have "\<exists>res. Claude37_round_1_other_rows idx acc es = Inr res \<and> res \<noteq> []" by simp
  moreover from Cons.IH[of "acc @ [hd row]"] Cons.prems
  have "\<exists>res. Claude37_round_1_other_rows idx (acc @ [hd row]) es = Inr res \<and> res \<noteq> []" by simp
  ultimately show ?case unfolding e by simp
qed

lemma max_columns_of_total: "rows \<noteq> [] \<Longrightarrow> \<exists>m. max_columns_of rows = Inr m"
  by (cases rows) (auto simp: max_columns_of_def)


lemma Claude37_round_1_rows_table_total:
  assumes "\<forall>r\<in>set rows. r \<noteq> []"
  shows "\<exists>t. Claude37_round_1_rows_table rows = Inr t"
proof -
  have cell: "get (rows ! k) 0 = Inr (rows ! k ! 0)" if "k < length rows" for k
  proof -
    from that have "rows ! k \<in> set rows" by simp
    with assms have "rows ! k \<noteq> []" by blast
    then show ?thesis by (simp add: get_def)
  qed
  have "\<exists>header_row.
             (if rows \<noteq> [] then (case get rows 0 of Inl e \<Rightarrow> Inl e | Inr r \<Rightarrow> get r 0)
              else Inr []) = Inr header_row"
  proof (cases "rows = []")
    case True
    then show ?thesis by simp
  next
    case False
    then have "0 < length rows" by simp
    with cell[of 0] show ?thesis by (simp add: get_def)
  qed
  then obtain header_row
    where h: "(if rows \<noteq> [] then (case get rows 0 of Inl e \<Rightarrow> Inl e | Inr r \<Rightarrow> get r 0)
               else Inr []) = Inr header_row"
    by blast
  have e: "\<forall>e\<in>set (enumerate 0 rows). snd e \<noteq> []"
    using assms by (auto simp: in_set_enumerate_eq)
  obtain fsi where f: "Claude37_round_1_first_separator 0 rows = Inr fsi"
    using Claude37_round_1_first_separator_total[OF assms, of 0] by auto
  have "\<exists>new_rows.
        (case fsi of
           None \<Rightarrow> Inr [header_row, Claude37_round_1_bars (replicate (columns header_row) SEP3)]
         | Some idx \<Rightarrow>
             (case get rows idx of
                Inl e \<Rightarrow> Inl e
              | Inr r \<Rightarrow>
                  (case get r 0 of
                     Inl e \<Rightarrow> Inl e
                   | Inr separator_row \<Rightarrow>
                       Claude37_round_1_other_rows idx [header_row, separator_row]
                         (enumerate 0 rows)))) = Inr new_rows \<and> new_rows \<noteq> []"
  proof (cases fsi)
    case None
    then show ?thesis by simp
  next
    case (Some idx)
    with f Claude37_round_1_first_separator_total[OF assms, of 0]
    have k: "idx < length rows" by auto
    then have g: "get rows idx = Inr (rows ! idx)" by (simp add: get_def)
    from Claude37_round_1_other_rows_total[OF e, of "[header_row, rows ! idx ! 0]" idx]
    show ?thesis unfolding Some using g cell[OF k] by simp
  qed
  then obtain new_rows where nr:
    "(case fsi of
           None \<Rightarrow> Inr [header_row, Claude37_round_1_bars (replicate (columns header_row) SEP3)]
         | Some idx \<Rightarrow>
             (case get rows idx of
                Inl e \<Rightarrow> Inl e
              | Inr r \<Rightarrow>
                  (case get r 0 of
                     Inl e \<Rightarrow> Inl e
                   | Inr separator_row \<Rightarrow>
                       Claude37_round_1_other_rows idx [header_row, separator_row]
                         (enumerate 0 rows)))) = Inr new_rows" and nn: "new_rows \<noteq> []"
    by blast
  from max_columns_of_total[OF nn] obtain m where m: "max_columns_of new_rows = Inr m" by blast
  show ?thesis
    unfolding Claude37_round_1_rows_table_def h
    by (simp add: f nr m)
qed

lemma Claude37_round_1_single_separator_total:
  assumes "separator_indices \<noteq> []" and "\<forall>i\<in>set separator_indices. i < length lines"
  shows "\<exists>t. Claude37_round_1_single_separator lines separator_indices = Inr t"
proof -
  from assms have "separator_indices ! 0 \<in> set separator_indices" by simp
  with assms(2) have s0: "separator_indices ! 0 < length lines" by blast
  then have "0 < length lines" by (cases lines) simp_all
  then have g1: "get lines 0 = Inr (lines ! 0)" by (simp add: get_def)
  from assms(1) have g2: "get separator_indices 0 = Inr (separator_indices ! 0)"
    by (simp add: get_def)
  from s0 have g3: "get lines (separator_indices ! 0) = Inr (lines ! (separator_indices ! 0))"
    by (simp add: get_def)
  show ?thesis
    unfolding Claude37_round_1_single_separator_def Let_def by (simp add: g1 g2 g3)
qed

lemma Claude37_round_1_separator_indices_range:
  "\<forall>i\<in>set (Claude37_round_1_separator_indices lines). i < length lines"
  unfolding Claude37_round_1_separator_indices_def
  using enumerate_filter_indices by blast

lemma Claude37_round_1_fix_complex_table_total:
  "\<exists>t. Claude37_round_1_fix_complex_table table_text = Inr t"
proof -
  define lines where "lines = Claude37_round_1_lines table_text"
  define sep where "sep = Claude37_round_1_separator_indices lines"
  have u: "Claude37_round_1_fix_complex_table table_text =
     (if 1 < length sep then
           (case Claude37_round_1_outer lines sep 0 [] [] of
              Inl e \<Rightarrow> Inl e
            | Inr (rows, current_row) \<Rightarrow>
                Claude37_round_1_rows_table
                  (if current_row \<noteq> [] then rows @ [current_row] else rows))
         else if sep \<noteq> [] then Claude37_round_1_single_separator lines sep
         else Inr table_text)"
    unfolding Claude37_round_1_fix_complex_table_def Let_def lines_def sep_def ..
  show ?thesis
  proof (cases "1 < length sep")
    case True
    from Claude37_round_1_outer_total[of "[]" lines sep 0 "[]"]
    obtain rows cur where o: "Claude37_round_1_outer lines sep 0 [] [] = Inr (rows, cur)"
      and r: "\<forall>r\<in>set rows. r \<noteq> []"
      by auto
    have "\<forall>r\<in>set (if cur \<noteq> [] then rows @ [cur] else rows). r \<noteq> []" using r by auto
    from Claude37_round_1_rows_table_total[OF this] True o show ?thesis
      unfolding u by simp
  next
    case False
    show ?thesis
    proof (cases "sep = []")
      case True
      with False show ?thesis unfolding u by simp
    next
      case ne: False
      have "\<forall>i\<in>set sep. i < length lines"
        unfolding sep_def by (rule Claude37_round_1_separator_indices_range)
      from Claude37_round_1_single_separator_total[OF ne this] False ne show ?thesis
        unfolding u by simp
    qed
  qed
qed

lemma Claude37_round_1_repeated_separators_total:
  "\<exists>b. Claude37_round_1_repeated_separators separator_indices = Inr b"
proof (cases "1 < length separator_indices")
  case True
  then have "0 < length separator_indices" by arith
  with True have g: "get separator_indices 0 = Inr (separator_indices ! 0)"
    "get separator_indices 1 = Inr (separator_indices ! 1)"
    unfolding get_def by (simp_all only: if_True)
  with True show ?thesis by (simp add: Claude37_round_1_repeated_separators_def)
next
  case False
  then have "Claude37_round_1_repeated_separators separator_indices = Inr False"
    by (simp add: Claude37_round_1_repeated_separators_def)
  then show ?thesis by blast
qed

lemma Claude37_round_1_drop_separators_total:
  assumes "separator_indices \<noteq> []"
    and "\<forall>i\<in>set separator_indices. 0 < i \<and> i < length lines"
  shows "\<exists>t. Claude37_round_1_drop_separators lines separator_indices = Inr t"
proof -
  define data_rows where
    "data_rows = map snd (filter (\<lambda>(i, line). i \<notin> set separator_indices) (enumerate 0 lines))"
  from assms have "separator_indices ! 0 \<in> set separator_indices" by simp
  with assms(2) have s0: "separator_indices ! 0 < length lines" by blast
  then have ne: "lines \<noteq> []" by (cases lines) simp_all
  then have g1: "get lines 0 = Inr (lines ! 0)" by (simp add: get_def)
  from assms(1) have g2: "get separator_indices 0 = Inr (separator_indices ! 0)"
    by (simp add: get_def)
  from s0 have g3: "get lines (separator_indices ! 0) = Inr (lines ! (separator_indices ! 0))"
    by (simp add: get_def)
  have "0 \<notin> set separator_indices" using assms(2) by auto
  moreover have "(0, lines ! 0) \<in> set (enumerate 0 lines)"
    using ne by (simp add: in_set_enumerate_eq)
  ultimately have "(0, lines ! 0) \<in> set (filter (\<lambda>(i, line). i \<notin> set separator_indices)
                                          (enumerate 0 lines))"
    by simp
  then have "lines ! 0 \<in> set data_rows"
    unfolding data_rows_def set_map by (intro image_eqI[where x = "(0, lines ! 0)"]) simp_all
  then have "data_rows \<noteq> []" by auto
  then have g4: "get data_rows 0 = Inr (data_rows ! 0)" by (simp add: get_def)
  show ?thesis
    unfolding Claude37_round_1_drop_separators_def Let_def data_rows_def[symmetric]
    by (simp add: g1 g2 g3 g4)
qed

lemma Claude37_round_1_fix_table_total:
  "\<exists>t. Claude37_round_1_fix_table table_text = Inr t"
proof -
  define lines where "lines = Claude37_round_1_lines table_text"
  define sep where
    "sep = map fst (filter (\<lambda>(i, line). 0 < i \<and> matches_separator_line line) (enumerate 0 lines))"
  define mc where "mc = fold (\<lambda>line m. max m (columns line)) lines 0"
  have u: "Claude37_round_1_fix_table table_text =
     (if sep = [] then Inr table_text
         else
           (case Claude37_round_1_repeated_separators sep of
                  Inl e \<Rightarrow> Inl e
                | Inr repeated_separators \<Rightarrow>
                    (case (if repeated_separators then Claude37_round_1_drop_separators lines sep
                           else Inr (Claude37_round_1_normalize_columns lines sep mc)) of
                       Inl e \<Rightarrow> Inl e
                     | Inr fixed_lines \<Rightarrow>
                         (if Claude37_round_1_is_table_valid (join [LF] fixed_lines)
                          then Inr (join [LF] fixed_lines)
                          else Claude37_round_1_fix_complex_table table_text))))"
    unfolding Claude37_round_1_fix_table_def Let_def lines_def sep_def mc_def ..
  have rng: "\<forall>i\<in>set sep. 0 < i \<and> i < length lines"
    unfolding sep_def by (auto simp: in_set_enumerate_eq)
  obtain c where c: "Claude37_round_1_fix_complex_table table_text = Inr c"
    using Claude37_round_1_fix_complex_table_total by blast
  obtain b where b: "Claude37_round_1_repeated_separators sep = Inr b"
    using Claude37_round_1_repeated_separators_total by blast
  show ?thesis
  proof (cases "sep = []")
    case True
    then show ?thesis unfolding u by simp
  next
    case False
    from Claude37_round_1_drop_separators_total[OF False rng]
    obtain d where d: "Claude37_round_1_drop_separators lines sep = Inr d" by blast
    from False b c d show ?thesis unfolding u by simp
  qed
qed

lemma Claude37_round_1_blocks_loop_total:
  "\<exists>r. Claude37_round_1_blocks_loop fixed_blocks blocks = Inr r"
proof (induction blocks arbitrary: fixed_blocks)
  case Nil
  show ?case by simp
next
  case (Cons block blocks)
  obtain t where "Claude37_round_1_fix_table block = Inr t"
    using Claude37_round_1_fix_table_total by blast
  with Cons show ?case by simp
qed

text \<open>
  C3. \<open>Claude37_round_1.fix_invalid_markdown_tables\<close> returns a string on every input.
  Every loop of the model is a terminating recursion, and every list index and every
  \<open>max\<close> of the code is a branch that can give \<open>IndexError\<close> or \<open>ValueError\<close>; the
  result is never one of them.
\<close>

theorem Claude37_round_1_total:
  "\<exists>out. Claude37_round_1_fix_invalid_markdown_tables markdown_text = Inr out"
proof -
  obtain r where "Claude37_round_1_blocks_loop [] (re_split_blank [] markdown_text) = Inr r"
    using Claude37_round_1_blocks_loop_total by blast
  then show ?thesis by (simp add: Claude37_round_1_fix_invalid_markdown_tables_def)
qed

end
